theory Spec2Isabelle
  imports Main "HOL-Library.Word" "HOL-Library.Log_Nat"
begin

unbundle bit_operations_syntax

section \<open>Canonical protobuf encoding of block ids, proposals and votes\<close>

text \<open>
  A shallow embedding of \<^verbatim>\<open>proto/tendermint/types/canonical.pb.go\<close>.
  Go's \<^verbatim>\<open>int\<close> and \<^verbatim>\<open>uint\<close> are taken to be 64 bits wide. Indices into a
  buffer are mathematical integers; wherever the source tests a sum for having become
  negative (an index plus a decoded length, and every sum in the skipper) the
  wrap-around of the 64-bit addition is written out with \<open>wrap64\<close>. Byte slices and
  strings are lists of bytes; a \<^verbatim>\<open>nil\<close> slice and an empty slice are the same list.
  Errors and panics are values: every function that can fail returns \<open>error + 'a\<close>.
\<close>

type_synonym byte = "8 word"

datatype error =
    ErrInvalidLengthCanonical
  | ErrIntOverflowCanonical
  | ErrUnexpectedEndOfGroupCanonical
  | ErrUnexpectedEOF
  | ErrWiretypeEndGroup
  | ErrIllegalTag
  | ErrWrongWireType string
  | ErrIllegalWireType
  | PanicOutOfRange
  | ErrExternal string

definition bind :: "error + 'a \<Rightarrow> ('a \<Rightarrow> error + 'b) \<Rightarrow> error + 'b" where
  "bind r f = (case r of Inl e \<Rightarrow> Inl e | Inr x \<Rightarrow> f x)"

definition MaxInt64 :: int where
  "MaxInt64 = 2 ^ 63 - 1"

definition wrap64 :: "int \<Rightarrow> int" where
  "wrap64 x = sint (word_of_int x :: 64 word)"

subsection \<open>Reading a buffer\<close>

text \<open>
  \<^verbatim>\<open>dAtA[i]\<close>: Go panics when the index is outside the slice. A slice holds at most
  \<open>MaxInt64\<close> bytes, so an index that can be read is below \<open>MaxInt64\<close> and
  \<^verbatim>\<open>iNdEx++\<close> after a read cannot overflow.
\<close>

definition index :: "byte list \<Rightarrow> int \<Rightarrow> error + byte" where
  "index dAtA i =
     (if 0 \<le> i \<and> i < int (length dAtA) \<and> i < MaxInt64 then Inr (dAtA ! nat i)
      else Inl PanicOutOfRange)"

text \<open>\<^verbatim>\<open>dAtA[a:b]\<close>, used by the source only after it has checked \<open>0 \<le> a \<le> b \<le> len(dAtA)\<close>.\<close>

definition slice :: "byte list \<Rightarrow> int \<Rightarrow> int \<Rightarrow> byte list" where
  "slice dAtA a b = take (nat (b - a)) (drop (nat a) dAtA)"

text \<open>
  The varint loop that every decoder and the skipper repeat in line:
  \<^verbatim>\<open>for shift := uint(0); ; shift += 7 { if shift >= 64 {overflow}; if iNdEx >= l {EOF};
  b := dAtA[iNdEx]; iNdEx++; x |= T(b&0x7F) << shift; if b < 0x80 {break} }\<close>.
  The accumulator has the width of the target (\<^verbatim>\<open>uint64\<close>, \<^verbatim>\<open>int\<close>, \<^verbatim>\<open>int64\<close>,
  \<^verbatim>\<open>uint32\<close>, \<^verbatim>\<open>int32\<close>); a shift by the width or more leaves zero, as in Go.
\<close>

function decode_varint_loop ::
  "byte list \<Rightarrow> int \<Rightarrow> nat \<Rightarrow> 'a::len word \<Rightarrow> error + ('a word \<times> int)" where
  "decode_varint_loop dAtA iNdEx shift x =
     (if 64 \<le> shift then Inl ErrIntOverflowCanonical
      else if int (length dAtA) \<le> iNdEx then Inl ErrUnexpectedEOF
      else case index dAtA iNdEx of
             Inl e \<Rightarrow> Inl e
           | Inr b \<Rightarrow>
               (let x' = x OR push_bit shift (ucast (b AND 0x7F)) in
                if b < 0x80 then Inr (x', iNdEx + 1)
                else decode_varint_loop dAtA (iNdEx + 1) (shift + 7) x'))"
  by pat_completeness auto
termination
  by (relation "measure (\<lambda>(dAtA, iNdEx, shift, x). 64 - shift)") auto

declare decode_varint_loop.simps [simp del]

definition decode_varint :: "byte list \<Rightarrow> int \<Rightarrow> error + ('a::len word \<times> int)" where
  "decode_varint dAtA iNdEx = decode_varint_loop dAtA iNdEx 0 0"

text \<open>
  A length prefix, as every length-delimited field reads it:
  \<^verbatim>\<open>if byteLen < 0 {invalid}; postIndex := iNdEx + byteLen; if postIndex < 0 {invalid};
  if postIndex > l {EOF}\<close>. The result is the index after the prefix and \<open>postIndex\<close>.
\<close>

definition decode_length :: "byte list \<Rightarrow> int \<Rightarrow> error + (int \<times> int)" where
  "decode_length dAtA iNdEx =
     bind (decode_varint dAtA iNdEx) (\<lambda>(byteLen :: 64 word, iNdEx).
       if sint byteLen < 0 then Inl ErrInvalidLengthCanonical
       else let postIndex = wrap64 (iNdEx + sint byteLen) in
         if postIndex < 0 then Inl ErrInvalidLengthCanonical
         else if postIndex > int (length dAtA) then Inl ErrUnexpectedEOF
         else Inr (iNdEx, postIndex))"

text \<open>\<^verbatim>\<open>fieldNum := int32(wire >> 3)\<close> and \<^verbatim>\<open>wireType := int(wire & 0x7)\<close>.\<close>

definition fieldNum_of :: "64 word \<Rightarrow> int" where
  "fieldNum_of wire = sint (ucast (drop_bit 3 wire) :: 32 word)"

definition wireType_of :: "64 word \<Rightarrow> nat" where
  "wireType_of wire = unat (wire AND 0x7)"

subsection \<open>skipCanonical\<close>

text \<open>The loop of wire type 0: it moves past one varint without keeping its value.\<close>

function skip_varint_loop :: "byte list \<Rightarrow> int \<Rightarrow> nat \<Rightarrow> error + int" where
  "skip_varint_loop dAtA iNdEx shift =
     (if 64 \<le> shift then Inl ErrIntOverflowCanonical
      else if int (length dAtA) \<le> iNdEx then Inl ErrUnexpectedEOF
      else case index dAtA (iNdEx + 1 - 1) of
             Inl e \<Rightarrow> Inl e
           | Inr b \<Rightarrow>
               if b < 0x80 then Inr (iNdEx + 1)
               else skip_varint_loop dAtA (iNdEx + 1) (shift + 7))"
  by pat_completeness auto
termination
  by (relation "measure (\<lambda>(dAtA, iNdEx, shift). 64 - shift)") auto

declare skip_varint_loop.simps [simp del]

text \<open>
  One pass through the body of the loop of \<^verbatim>\<open>skipCanonical\<close>, up to and including
  \<^verbatim>\<open>if iNdEx < 0\<close>: it returns the new index and the new depth.
\<close>

definition skip_field :: "byte list \<Rightarrow> int \<Rightarrow> nat \<Rightarrow> error + (int \<times> nat)" where
  "skip_field dAtA iNdEx depth =
     bind (decode_varint dAtA iNdEx) (\<lambda>(wire :: 64 word, iNdEx).
       let wireType = wireType_of wire in
       bind
         (if wireType = 0 then
            bind (skip_varint_loop dAtA iNdEx 0) (\<lambda>iNdEx. Inr (iNdEx, depth))
          else if wireType = 1 then Inr (wrap64 (iNdEx + 8), depth)
          else if wireType = 2 then
            bind (decode_varint dAtA iNdEx) (\<lambda>(length :: 64 word, iNdEx).
              if sint length < 0 then Inl ErrInvalidLengthCanonical
              else Inr (wrap64 (iNdEx + sint length), depth))
          else if wireType = 3 then Inr (iNdEx, depth + 1)
          else if wireType = 4 then
            (if depth = 0 then Inl ErrUnexpectedEndOfGroupCanonical
             else Inr (iNdEx, depth - 1))
          else if wireType = 5 then Inr (wrap64 (iNdEx + 4), depth)
          else Inl ErrIllegalWireType)
         (\<lambda>(iNdEx, depth).
            if iNdEx < 0 then Inl ErrInvalidLengthCanonical else Inr (iNdEx, depth)))"

subsection \<open>Progress of the loops\<close>

lemma wrap64_cases:
  "0 \<le> x \<Longrightarrow> x < 2 ^ 64 \<Longrightarrow> wrap64 x = (if x < 2 ^ 63 then x else x - 2 ^ 64)"
  unfolding wrap64_def
  by (simp add: sint_sbintrunc' signed_take_bit_eq_take_bit_shift take_bit_eq_mod)
    (smt (verit) mod_pos_pos_trivial mod_add_self2 minus_mod_self2 mod_diff_right_eq)

lemma wrap64_nonneg:
  "0 \<le> x \<Longrightarrow> x < 2 ^ 64 \<Longrightarrow> 0 \<le> wrap64 x \<Longrightarrow> wrap64 x = x \<and> x \<le> MaxInt64"
  by (simp add: wrap64_cases MaxInt64_def split: if_splits)

lemma decode_varint_loop_progress:
  "decode_varint_loop dAtA iNdEx shift x = Inr (v, iNdEx') \<Longrightarrow>
   0 \<le> iNdEx \<and> iNdEx < iNdEx' \<and> iNdEx' \<le> int (length dAtA) \<and> iNdEx' \<le> MaxInt64"
proof (induction dAtA iNdEx shift x rule: decode_varint_loop.induct)
  case (1 dAtA iNdEx shift x)
  from "1.prems" show ?case
    apply (subst (asm) decode_varint_loop.simps)
    apply (auto simp: index_def Let_def split: if_splits dest!: "1.IH" [rotated -1])
    done
qed

lemma decode_varint_progress:
  "decode_varint dAtA iNdEx = Inr (v, iNdEx') \<Longrightarrow>
   0 \<le> iNdEx \<and> iNdEx < iNdEx' \<and> iNdEx' \<le> int (length dAtA) \<and> iNdEx' \<le> MaxInt64"
  unfolding decode_varint_def by (rule decode_varint_loop_progress)

lemma skip_varint_loop_progress:
  "skip_varint_loop dAtA iNdEx shift = Inr iNdEx' \<Longrightarrow>
   0 \<le> iNdEx \<and> iNdEx < iNdEx' \<and> iNdEx' \<le> int (length dAtA) \<and> iNdEx' \<le> MaxInt64"
proof (induction dAtA iNdEx shift rule: skip_varint_loop.induct)
  case (1 dAtA iNdEx shift)
  from "1.prems" show ?case
    apply (subst (asm) skip_varint_loop.simps)
    apply (auto simp: index_def Let_def split: if_splits dest!: "1.IH" [rotated -1])
    done
qed

lemma sint64_bounds: "- (2 ^ 63) \<le> sint (w :: 64 word) \<and> sint w < 2 ^ 63"
  using sint_ge [of w] sint_lt [of w] by simp

lemma skip_field_progress:
  assumes "skip_field dAtA iNdEx depth = Inr (iNdEx', depth')"
  shows "0 \<le> iNdEx \<and> iNdEx < iNdEx' \<and> iNdEx' \<le> MaxInt64"
proof -
  from assms obtain wire :: "64 word" and i1 where
    tag: "decode_varint dAtA iNdEx = Inr (wire, i1)"
    by (auto simp: skip_field_def bind_def split: sum.splits)
  note p = decode_varint_progress [OF tag]
  have w: "0 \<le> wrap64 (i1 + k) \<Longrightarrow> wrap64 (i1 + k) = i1 + k \<and> i1 + k \<le> MaxInt64"
    if "0 \<le> k" "k < 2 ^ 63" for k
    using p that by (intro wrap64_nonneg) (auto simp: MaxInt64_def)
  consider (t0) "wireType_of wire = 0" | (t1) "wireType_of wire = 1" | (t2) "wireType_of wire = 2"
    | (t3) "wireType_of wire = 3" | (t4) "wireType_of wire = 4" | (t5) "wireType_of wire = 5"
    | (other) "wireType_of wire \<notin> {0, 1, 2, 3, 4, 5}"
    by auto
  then show ?thesis
  proof cases
    case t0
    with assms tag p show ?thesis
      by (auto simp: skip_field_def bind_def split: sum.splits if_splits
          dest!: skip_varint_loop_progress)
  next
    case t1
    with assms tag p w [of 8] show ?thesis
      by (auto simp: skip_field_def bind_def split: sum.splits if_splits)
  next
    case t2
    from t2 assms tag obtain len :: "64 word" and i2 where
      len: "decode_varint dAtA i1 = Inr (len, i2)" and nn: "0 \<le> sint len"
      and res: "iNdEx' = wrap64 (i2 + sint len)" "0 \<le> wrap64 (i2 + sint len)"
      by (auto simp: skip_field_def bind_def split: sum.splits if_splits prod.splits)
    note q = decode_varint_progress [OF len]
    have "wrap64 (i2 + sint len) = i2 + sint len \<and> i2 + sint len \<le> MaxInt64"
      using q nn res(2) sint64_bounds [of len]
      by (intro wrap64_nonneg) (auto simp: MaxInt64_def)
    with p q nn res show ?thesis by auto
  next
    case t3
    with assms tag p show ?thesis
      by (auto simp: skip_field_def bind_def split: sum.splits if_splits)
  next
    case t4
    with assms tag p show ?thesis
      by (auto simp: skip_field_def bind_def split: sum.splits if_splits)
  next
    case t5
    with assms tag p w [of 4] show ?thesis
      by (auto simp: skip_field_def bind_def split: sum.splits if_splits)
  next
    case other
    with assms tag show ?thesis
      by (auto simp: skip_field_def bind_def split: sum.splits if_splits)
  qed
qed

function skip_loop :: "byte list \<Rightarrow> int \<Rightarrow> nat \<Rightarrow> error + int" where
  "skip_loop dAtA iNdEx depth =
     (if iNdEx < int (length dAtA) then
        (case skip_field dAtA iNdEx depth of
           Inl e \<Rightarrow> Inl e
         | Inr (iNdEx', depth') \<Rightarrow>
             if depth' = 0 then Inr iNdEx' else skip_loop dAtA iNdEx' depth')
      else Inl ErrUnexpectedEOF)"
  by pat_completeness auto
termination
  by (relation "measure (\<lambda>(dAtA, iNdEx, depth). nat (int (length dAtA) - iNdEx))")
    (auto dest!: skip_field_progress)


declare skip_loop.simps [simp del]

definition skipCanonical :: "byte list \<Rightarrow> error + int" where
  "skipCanonical dAtA = skip_loop dAtA 0 0"

lemma skip_loop_success:
  "skip_loop dAtA iNdEx depth = Inr n \<Longrightarrow>
   \<exists>i d. i < int (length dAtA) \<and> skip_field dAtA i d = Inr (n, 0)"
proof (induction dAtA iNdEx depth rule: skip_loop.induct)
  case (1 dAtA iNdEx depth)
  show ?case
  proof (cases "skip_field dAtA iNdEx depth")
    case (Inl e)
    with "1.prems" show ?thesis
      by (subst (asm) skip_loop.simps) (simp split: if_splits)
  next
    case (Inr r)
    obtain i' d' where r: "r = (i', d')" by (cases r)
    from "1.prems" have lt: "iNdEx < int (length dAtA)"
      by (subst (asm) skip_loop.simps) (simp split: if_splits)
    show ?thesis
    proof (cases "d' = 0")
      case True
      with "1.prems" Inr r lt have "n = i'"
        by (subst (asm) skip_loop.simps) simp
      with Inr r True lt show ?thesis by blast
    next
      case False
      with "1.prems" Inr r lt have "skip_loop dAtA i' d' = Inr n"
        by (subst (asm) skip_loop.simps) simp
      with "1.IH" [OF lt Inr r [symmetric] False] show ?thesis by simp
    qed
  qed
qed

lemma skipCanonical_positive:
  assumes "skipCanonical dAtA = Inr n"
  shows "0 < n \<and> n \<le> MaxInt64"
proof -
  from assms have "\<exists>i d. i < int (length dAtA) \<and> skip_field dAtA i d = Inr (n, 0)"
    unfolding skipCanonical_def by (rule skip_loop_success)
  then show ?thesis by (auto dest!: skip_field_progress)
qed

section \<open>Messages\<close>

text \<open>
  The four message structs. \<^verbatim>\<open>SignedMsgType\<close> is an \<^verbatim>\<open>int32\<close>; a pointer field that may be
  \<^verbatim>\<open>nil\<close> is an option. \<^verbatim>\<open>time.Time\<close> and \<^verbatim>\<open>VoteExtensionToSign\<close> are declared outside
  this file: they are the type parameters \<open>'t\<close> and \<open>'x\<close>.
\<close>

record CanonicalPartSetHeader =
  psh_Total :: "32 word"
  psh_Hash :: "byte list"

record CanonicalBlockID =
  bid_Hash :: "byte list"
  bid_PartSetHeader :: CanonicalPartSetHeader

record 't CanonicalProposal =
  prop_Type :: "32 word"
  prop_Height :: "64 word"
  prop_Round :: "64 word"
  prop_POLRound :: "64 word"
  prop_BlockID :: "CanonicalBlockID option"
  prop_Timestamp :: 't
  prop_ChainID :: "byte list"

record ('t, 'x) CanonicalVote =
  vote_Type :: "32 word"
  vote_Height :: "64 word"
  vote_Round :: "64 word"
  vote_BlockID :: "CanonicalBlockID option"
  vote_Timestamp :: 't
  vote_ChainID :: "byte list"
  vote_VoteExtension :: "'x option"

text \<open>
  The functions of other files and packages that the code calls, taken as parameters:
  \<^item> \<^verbatim>\<open>SizeOfStdTime(t)\<close>, \<^verbatim>\<open>StdTimeMarshalTo(t, data)\<close> and \<^verbatim>\<open>StdTimeUnmarshal(&t, data)\<close>
    of gogoproto. \<open>StdTimeMarshalTo\<close> gives the bytes that the call writes at the start
    of \<^verbatim>\<open>data\<close> (the count it returns is their number); \<open>StdTimeUnmarshal\<close> overwrites
    its target.
  \<^item> \<^verbatim>\<open>Size\<close>, \<^verbatim>\<open>MarshalToSizedBuffer\<close> and \<^verbatim>\<open>Unmarshal\<close> of \<^verbatim>\<open>VoteExtensionToSign\<close>, and its
    zero value \<^verbatim>\<open>VoteExtensionToSign{}\<close>. \<open>VoteExtension_MarshalToSizedBuffer\<close> gives the
    bytes that the call writes at the end of the buffer it is given (the count it
    returns is their number); \<open>VoteExtension_Unmarshal\<close> takes the receiver first.
\<close>

record ('t, 'x) externals =
  SizeOfStdTime :: "'t \<Rightarrow> nat"
  StdTimeMarshalTo :: "'t \<Rightarrow> error + byte list"
  StdTimeUnmarshal :: "byte list \<Rightarrow> error + 't"
  VoteExtension_Size :: "'x \<Rightarrow> nat"
  VoteExtension_MarshalToSizedBuffer :: "'x \<Rightarrow> error + byte list"
  VoteExtension_Unmarshal :: "'x \<Rightarrow> byte list \<Rightarrow> error + 'x"
  VoteExtension_zero :: 'x

definition CanonicalPartSetHeader_zero :: CanonicalPartSetHeader where
  "CanonicalPartSetHeader_zero = \<lparr>psh_Total = 0, psh_Hash = []\<rparr>"

definition CanonicalBlockID_zero :: CanonicalBlockID where
  "CanonicalBlockID_zero = \<lparr>bid_Hash = [], bid_PartSetHeader = CanonicalPartSetHeader_zero\<rparr>"

text \<open>
  \<^verbatim>\<open>CanonicalProposal{}\<close> and \<^verbatim>\<open>CanonicalVote{}\<close>; \<open>t0\<close> stands for the zero \<^verbatim>\<open>time.Time{}\<close>.
\<close>

definition CanonicalProposal_zero :: "'t \<Rightarrow> 't CanonicalProposal" where
  "CanonicalProposal_zero t0 =
     \<lparr>prop_Type = 0, prop_Height = 0, prop_Round = 0, prop_POLRound = 0,
      prop_BlockID = None, prop_Timestamp = t0, prop_ChainID = []\<rparr>"

definition CanonicalVote_zero :: "'t \<Rightarrow> ('t, 'x) CanonicalVote" where
  "CanonicalVote_zero t0 =
     \<lparr>vote_Type = 0, vote_Height = 0, vote_Round = 0, vote_BlockID = None,
      vote_Timestamp = t0, vote_ChainID = [], vote_VoteExtension = None\<rparr>"


section \<open>Unmarshal\<close>

text \<open>\<^verbatim>\<open>encoding_binary.LittleEndian.Uint64(b)\<close>: it panics on fewer than 8 bytes.\<close>

definition Uint64 :: "byte list \<Rightarrow> error + 64 word" where
  "Uint64 b =
     (if length b < 8 then Inl PanicOutOfRange
      else Inr (ucast (b ! 0) OR push_bit 8 (ucast (b ! 1)) OR push_bit 16 (ucast (b ! 2))
             OR push_bit 24 (ucast (b ! 3)) OR push_bit 32 (ucast (b ! 4))
             OR push_bit 40 (ucast (b ! 5)) OR push_bit 48 (ucast (b ! 6))
             OR push_bit 56 (ucast (b ! 7))))"

text \<open>
  A \<^verbatim>\<open>fixed64\<close> field: \<^verbatim>\<open>if (iNdEx + 8) > l {EOF}; v = Uint64(dAtA[iNdEx:]); iNdEx += 8\<close>.
\<close>

definition decode_fixed64 :: "byte list \<Rightarrow> int \<Rightarrow> error + (64 word \<times> int)" where
  "decode_fixed64 dAtA iNdEx =
     (if iNdEx + 8 > int (length dAtA) then Inl ErrUnexpectedEOF
      else bind (Uint64 (drop (nat iNdEx) dAtA)) (\<lambda>v. Inr (v, iNdEx + 8)))"

text \<open>
  The \<^verbatim>\<open>default\<close> branch of every decoder:
  \<^verbatim>\<open>iNdEx = preIndex; skippy, err := skipCanonical(dAtA[iNdEx:]); ...; iNdEx += skippy\<close>.
\<close>

definition skip_unknown :: "byte list \<Rightarrow> int \<Rightarrow> error + int" where
  "skip_unknown dAtA preIndex =
     (let iNdEx = preIndex in
      bind (skipCanonical (drop (nat iNdEx) dAtA)) (\<lambda>skippy.
        if skippy < 0 \<or> wrap64 (iNdEx + skippy) < 0 then Inl ErrInvalidLengthCanonical
        else if wrap64 (iNdEx + skippy) > int (length dAtA) then Inl ErrUnexpectedEOF
        else Inr (wrap64 (iNdEx + skippy))))"

lemma decode_length_progress:
  assumes "decode_length dAtA iNdEx = Inr (iNdEx', postIndex)"
  shows "0 \<le> iNdEx \<and> iNdEx < iNdEx' \<and> iNdEx' \<le> postIndex \<and> postIndex \<le> int (length dAtA)"
proof -
  from assms obtain byteLen :: "64 word" where
    len: "decode_varint dAtA iNdEx = Inr (byteLen, iNdEx')" and nn: "0 \<le> sint byteLen"
    and res: "postIndex = wrap64 (iNdEx' + sint byteLen)" "0 \<le> wrap64 (iNdEx' + sint byteLen)"
      "postIndex \<le> int (length dAtA)"
    by (auto simp: decode_length_def bind_def Let_def split: sum.splits if_splits prod.splits)
  note q = decode_varint_progress [OF len]
  have "wrap64 (iNdEx' + sint byteLen) = iNdEx' + sint byteLen"
    using q nn res(2) sint64_bounds [of byteLen]
    by (intro wrap64_nonneg [THEN conjunct1]) (auto simp: MaxInt64_def)
  with q nn res show ?thesis by auto
qed

lemma decode_fixed64_progress:
  "decode_fixed64 dAtA iNdEx = Inr (v, iNdEx') \<Longrightarrow> iNdEx' = iNdEx + 8"
  by (auto simp: decode_fixed64_def bind_def split: if_splits sum.splits)

lemma skip_unknown_progress:
  assumes "skip_unknown dAtA preIndex = Inr iNdEx'" and "0 \<le> preIndex" and "preIndex \<le> MaxInt64"
  shows "preIndex < iNdEx'"
proof -
  from assms(1) obtain skippy where
    sk: "skipCanonical (drop (nat preIndex) dAtA) = Inr skippy"
    and res: "iNdEx' = wrap64 (preIndex + skippy)" "0 \<le> wrap64 (preIndex + skippy)"
    by (auto simp: skip_unknown_def bind_def Let_def split: sum.splits if_splits)
  note q = skipCanonical_positive [OF sk]
  have "wrap64 (preIndex + skippy) = preIndex + skippy"
    using q assms(2,3) res(2)
    by (intro wrap64_nonneg [THEN conjunct1]) (auto simp: MaxInt64_def)
  with q res show ?thesis by simp
qed

subsection \<open>CanonicalPartSetHeader\<close>

text \<open>One pass through the body of the decoder's loop: a tag and the field it announces.\<close>

definition CanonicalPartSetHeader_Unmarshal_field ::
  "byte list \<Rightarrow> int \<Rightarrow> CanonicalPartSetHeader \<Rightarrow> error + (CanonicalPartSetHeader \<times> int)" where
  "CanonicalPartSetHeader_Unmarshal_field dAtA iNdEx m =
     (let preIndex = iNdEx in
      bind (decode_varint dAtA iNdEx) (\<lambda>(wire :: 64 word, iNdEx).
        let fieldNum = fieldNum_of wire; wireType = wireType_of wire in
        if wireType = 4 then Inl ErrWiretypeEndGroup
        else if fieldNum \<le> 0 then Inl ErrIllegalTag
        else if fieldNum = 1 then
          (if wireType \<noteq> 0 then Inl (ErrWrongWireType ''Total'')
           else bind (decode_varint dAtA iNdEx) (\<lambda>(v, iNdEx).
                  Inr (m\<lparr>psh_Total := v\<rparr>, iNdEx)))
        else if fieldNum = 2 then
          (if wireType \<noteq> 2 then Inl (ErrWrongWireType ''Hash'')
           else bind (decode_length dAtA iNdEx) (\<lambda>(iNdEx, postIndex).
                  Inr (m\<lparr>psh_Hash := slice dAtA iNdEx postIndex\<rparr>, postIndex)))
        else bind (skip_unknown dAtA preIndex) (\<lambda>iNdEx. Inr (m, iNdEx))))"

lemma CanonicalPartSetHeader_Unmarshal_field_progress:
  assumes "CanonicalPartSetHeader_Unmarshal_field dAtA iNdEx m = Inr (m', iNdEx')"
  shows "iNdEx < iNdEx'"
proof -
  from assms obtain wire :: "64 word" and i1 where
    tag: "decode_varint dAtA iNdEx = Inr (wire, i1)"
    by (auto simp: CanonicalPartSetHeader_Unmarshal_field_def bind_def split: sum.splits)
  note p = decode_varint_progress [OF tag]
  from assms tag p show ?thesis
    by (auto simp: CanonicalPartSetHeader_Unmarshal_field_def bind_def Let_def
        split: sum.splits if_splits
        dest!: decode_varint_progress decode_length_progress
        dest: skip_unknown_progress)
qed

function CanonicalPartSetHeader_Unmarshal_loop ::
  "byte list \<Rightarrow> int \<Rightarrow> CanonicalPartSetHeader \<Rightarrow> error + CanonicalPartSetHeader" where
  "CanonicalPartSetHeader_Unmarshal_loop dAtA iNdEx m =
     (if iNdEx < int (length dAtA) then
        (case CanonicalPartSetHeader_Unmarshal_field dAtA iNdEx m of
           Inl e \<Rightarrow> Inl e
         | Inr (m', iNdEx') \<Rightarrow> CanonicalPartSetHeader_Unmarshal_loop dAtA iNdEx' m')
      else if iNdEx > int (length dAtA) then Inl ErrUnexpectedEOF
      else Inr m)"
  by pat_completeness auto
termination
  by (relation "measure (\<lambda>(dAtA, iNdEx, m). nat (int (length dAtA) - iNdEx))")
    (auto dest!: CanonicalPartSetHeader_Unmarshal_field_progress)

declare CanonicalPartSetHeader_Unmarshal_loop.simps [simp del]

text \<open>The receiver comes first: \<^verbatim>\<open>m.Unmarshal(dAtA)\<close> merges the fields it reads into \<open>m\<close>.\<close>

definition CanonicalPartSetHeader_Unmarshal ::
  "CanonicalPartSetHeader \<Rightarrow> byte list \<Rightarrow> error + CanonicalPartSetHeader" where
  "CanonicalPartSetHeader_Unmarshal m dAtA = CanonicalPartSetHeader_Unmarshal_loop dAtA 0 m"

subsection \<open>CanonicalBlockID\<close>

definition CanonicalBlockID_Unmarshal_field ::
  "byte list \<Rightarrow> int \<Rightarrow> CanonicalBlockID \<Rightarrow> error + (CanonicalBlockID \<times> int)" where
  "CanonicalBlockID_Unmarshal_field dAtA iNdEx m =
     (let preIndex = iNdEx in
      bind (decode_varint dAtA iNdEx) (\<lambda>(wire :: 64 word, iNdEx).
        let fieldNum = fieldNum_of wire; wireType = wireType_of wire in
        if wireType = 4 then Inl ErrWiretypeEndGroup
        else if fieldNum \<le> 0 then Inl ErrIllegalTag
        else if fieldNum = 1 then
          (if wireType \<noteq> 2 then Inl (ErrWrongWireType ''Hash'')
           else bind (decode_length dAtA iNdEx) (\<lambda>(iNdEx, postIndex).
                  Inr (m\<lparr>bid_Hash := slice dAtA iNdEx postIndex\<rparr>, postIndex)))
        else if fieldNum = 2 then
          (if wireType \<noteq> 2 then Inl (ErrWrongWireType ''PartSetHeader'')
           else bind (decode_length dAtA iNdEx) (\<lambda>(iNdEx, postIndex).
                  bind (CanonicalPartSetHeader_Unmarshal (bid_PartSetHeader m)
                          (slice dAtA iNdEx postIndex)) (\<lambda>p.
                    Inr (m\<lparr>bid_PartSetHeader := p\<rparr>, postIndex))))
        else bind (skip_unknown dAtA preIndex) (\<lambda>iNdEx. Inr (m, iNdEx))))"

lemma CanonicalBlockID_Unmarshal_field_progress:
  assumes "CanonicalBlockID_Unmarshal_field dAtA iNdEx m = Inr (m', iNdEx')"
  shows "iNdEx < iNdEx'"
proof -
  from assms obtain wire :: "64 word" and i1 where
    tag: "decode_varint dAtA iNdEx = Inr (wire, i1)"
    by (auto simp: CanonicalBlockID_Unmarshal_field_def bind_def split: sum.splits)
  note p = decode_varint_progress [OF tag]
  from assms tag p show ?thesis
    by (auto simp: CanonicalBlockID_Unmarshal_field_def bind_def Let_def
        split: sum.splits if_splits
        dest!: decode_length_progress
        dest: skip_unknown_progress)
qed

function CanonicalBlockID_Unmarshal_loop ::
  "byte list \<Rightarrow> int \<Rightarrow> CanonicalBlockID \<Rightarrow> error + CanonicalBlockID" where
  "CanonicalBlockID_Unmarshal_loop dAtA iNdEx m =
     (if iNdEx < int (length dAtA) then
        (case CanonicalBlockID_Unmarshal_field dAtA iNdEx m of
           Inl e \<Rightarrow> Inl e
         | Inr (m', iNdEx') \<Rightarrow> CanonicalBlockID_Unmarshal_loop dAtA iNdEx' m')
      else if iNdEx > int (length dAtA) then Inl ErrUnexpectedEOF
      else Inr m)"
  by pat_completeness auto
termination
  by (relation "measure (\<lambda>(dAtA, iNdEx, m). nat (int (length dAtA) - iNdEx))")
    (auto dest!: CanonicalBlockID_Unmarshal_field_progress)

declare CanonicalBlockID_Unmarshal_loop.simps [simp del]

definition CanonicalBlockID_Unmarshal ::
  "CanonicalBlockID \<Rightarrow> byte list \<Rightarrow> error + CanonicalBlockID" where
  "CanonicalBlockID_Unmarshal m dAtA = CanonicalBlockID_Unmarshal_loop dAtA 0 m"

subsection \<open>CanonicalProposal\<close>

text \<open>
  \<^verbatim>\<open>if m.BlockID == nil { m.BlockID = &CanonicalBlockID{} }\<close> before the nested call. The
  length of \<^verbatim>\<open>ChainID\<close> is read into a \<^verbatim>\<open>uint64\<close> and converted to \<^verbatim>\<open>int\<close>, which is the
  value that \<open>decode_length\<close> reads into an \<^verbatim>\<open>int\<close> directly.
\<close>

definition CanonicalProposal_Unmarshal_field ::
  "('t, 'x) externals \<Rightarrow> byte list \<Rightarrow> int \<Rightarrow> 't CanonicalProposal
     \<Rightarrow> error + ('t CanonicalProposal \<times> int)" where
  "CanonicalProposal_Unmarshal_field E dAtA iNdEx m =
     (let preIndex = iNdEx in
      bind (decode_varint dAtA iNdEx) (\<lambda>(wire :: 64 word, iNdEx).
        let fieldNum = fieldNum_of wire; wireType = wireType_of wire in
        if wireType = 4 then Inl ErrWiretypeEndGroup
        else if fieldNum \<le> 0 then Inl ErrIllegalTag
        else if fieldNum = 1 then
          (if wireType \<noteq> 0 then Inl (ErrWrongWireType ''Type'')
           else bind (decode_varint dAtA iNdEx) (\<lambda>(v, iNdEx).
                  Inr (m\<lparr>prop_Type := v\<rparr>, iNdEx)))
        else if fieldNum = 2 then
          (if wireType \<noteq> 1 then Inl (ErrWrongWireType ''Height'')
           else bind (decode_fixed64 dAtA iNdEx) (\<lambda>(v, iNdEx).
                  Inr (m\<lparr>prop_Height := v\<rparr>, iNdEx)))
        else if fieldNum = 3 then
          (if wireType \<noteq> 1 then Inl (ErrWrongWireType ''Round'')
           else bind (decode_fixed64 dAtA iNdEx) (\<lambda>(v, iNdEx).
                  Inr (m\<lparr>prop_Round := v\<rparr>, iNdEx)))
        else if fieldNum = 4 then
          (if wireType \<noteq> 0 then Inl (ErrWrongWireType ''POLRound'')
           else bind (decode_varint dAtA iNdEx) (\<lambda>(v, iNdEx).
                  Inr (m\<lparr>prop_POLRound := v\<rparr>, iNdEx)))
        else if fieldNum = 5 then
          (if wireType \<noteq> 2 then Inl (ErrWrongWireType ''BlockID'')
           else bind (decode_length dAtA iNdEx) (\<lambda>(iNdEx, postIndex).
                  bind (CanonicalBlockID_Unmarshal
                          (case prop_BlockID m of None \<Rightarrow> CanonicalBlockID_zero | Some b \<Rightarrow> b)
                          (slice dAtA iNdEx postIndex)) (\<lambda>b.
                    Inr (m\<lparr>prop_BlockID := Some b\<rparr>, postIndex))))
        else if fieldNum = 6 then
          (if wireType \<noteq> 2 then Inl (ErrWrongWireType ''Timestamp'')
           else bind (decode_length dAtA iNdEx) (\<lambda>(iNdEx, postIndex).
                  bind (StdTimeUnmarshal E (slice dAtA iNdEx postIndex)) (\<lambda>t.
                    Inr (m\<lparr>prop_Timestamp := t\<rparr>, postIndex))))
        else if fieldNum = 7 then
          (if wireType \<noteq> 2 then Inl (ErrWrongWireType ''ChainID'')
           else bind (decode_length dAtA iNdEx) (\<lambda>(iNdEx, postIndex).
                  Inr (m\<lparr>prop_ChainID := slice dAtA iNdEx postIndex\<rparr>, postIndex)))
        else bind (skip_unknown dAtA preIndex) (\<lambda>iNdEx. Inr (m, iNdEx))))"

lemma CanonicalProposal_Unmarshal_field_progress:
  assumes "CanonicalProposal_Unmarshal_field E dAtA iNdEx m = Inr (m', iNdEx')"
  shows "iNdEx < iNdEx'"
proof -
  from assms obtain wire :: "64 word" and i1 where
    tag: "decode_varint dAtA iNdEx = Inr (wire, i1)"
    by (auto simp: CanonicalProposal_Unmarshal_field_def bind_def split: sum.splits)
  note p = decode_varint_progress [OF tag]
  from assms tag p show ?thesis
    by (auto simp: CanonicalProposal_Unmarshal_field_def bind_def Let_def
        split: sum.splits if_splits
        dest!: decode_varint_progress decode_length_progress decode_fixed64_progress
        dest: skip_unknown_progress)
qed

function CanonicalProposal_Unmarshal_loop ::
  "('t, 'x) externals \<Rightarrow> byte list \<Rightarrow> int \<Rightarrow> 't CanonicalProposal
     \<Rightarrow> error + 't CanonicalProposal" where
  "CanonicalProposal_Unmarshal_loop E dAtA iNdEx m =
     (if iNdEx < int (length dAtA) then
        (case CanonicalProposal_Unmarshal_field E dAtA iNdEx m of
           Inl e \<Rightarrow> Inl e
         | Inr (m', iNdEx') \<Rightarrow> CanonicalProposal_Unmarshal_loop E dAtA iNdEx' m')
      else if iNdEx > int (length dAtA) then Inl ErrUnexpectedEOF
      else Inr m)"
  by pat_completeness auto
termination
  by (relation "measure (\<lambda>(E, dAtA, iNdEx, m). nat (int (length dAtA) - iNdEx))")
    (auto dest!: CanonicalProposal_Unmarshal_field_progress)

declare CanonicalProposal_Unmarshal_loop.simps [simp del]

definition CanonicalProposal_Unmarshal ::
  "('t, 'x) externals \<Rightarrow> 't CanonicalProposal \<Rightarrow> byte list \<Rightarrow> error + 't CanonicalProposal" where
  "CanonicalProposal_Unmarshal E m dAtA = CanonicalProposal_Unmarshal_loop E dAtA 0 m"

subsection \<open>CanonicalVote\<close>

text \<open>\<^verbatim>\<open>if m.VoteExtension == nil { m.VoteExtension = &VoteExtensionToSign{} }\<close> likewise.\<close>

definition CanonicalVote_Unmarshal_field ::
  "('t, 'x) externals \<Rightarrow> byte list \<Rightarrow> int \<Rightarrow> ('t, 'x) CanonicalVote
     \<Rightarrow> error + (('t, 'x) CanonicalVote \<times> int)" where
  "CanonicalVote_Unmarshal_field E dAtA iNdEx m =
     (let preIndex = iNdEx in
      bind (decode_varint dAtA iNdEx) (\<lambda>(wire :: 64 word, iNdEx).
        let fieldNum = fieldNum_of wire; wireType = wireType_of wire in
        if wireType = 4 then Inl ErrWiretypeEndGroup
        else if fieldNum \<le> 0 then Inl ErrIllegalTag
        else if fieldNum = 1 then
          (if wireType \<noteq> 0 then Inl (ErrWrongWireType ''Type'')
           else bind (decode_varint dAtA iNdEx) (\<lambda>(v, iNdEx).
                  Inr (m\<lparr>vote_Type := v\<rparr>, iNdEx)))
        else if fieldNum = 2 then
          (if wireType \<noteq> 1 then Inl (ErrWrongWireType ''Height'')
           else bind (decode_fixed64 dAtA iNdEx) (\<lambda>(v, iNdEx).
                  Inr (m\<lparr>vote_Height := v\<rparr>, iNdEx)))
        else if fieldNum = 3 then
          (if wireType \<noteq> 1 then Inl (ErrWrongWireType ''Round'')
           else bind (decode_fixed64 dAtA iNdEx) (\<lambda>(v, iNdEx).
                  Inr (m\<lparr>vote_Round := v\<rparr>, iNdEx)))
        else if fieldNum = 4 then
          (if wireType \<noteq> 2 then Inl (ErrWrongWireType ''BlockID'')
           else bind (decode_length dAtA iNdEx) (\<lambda>(iNdEx, postIndex).
                  bind (CanonicalBlockID_Unmarshal
                          (case vote_BlockID m of None \<Rightarrow> CanonicalBlockID_zero | Some b \<Rightarrow> b)
                          (slice dAtA iNdEx postIndex)) (\<lambda>b.
                    Inr (m\<lparr>vote_BlockID := Some b\<rparr>, postIndex))))
        else if fieldNum = 5 then
          (if wireType \<noteq> 2 then Inl (ErrWrongWireType ''Timestamp'')
           else bind (decode_length dAtA iNdEx) (\<lambda>(iNdEx, postIndex).
                  bind (StdTimeUnmarshal E (slice dAtA iNdEx postIndex)) (\<lambda>t.
                    Inr (m\<lparr>vote_Timestamp := t\<rparr>, postIndex))))
        else if fieldNum = 6 then
          (if wireType \<noteq> 2 then Inl (ErrWrongWireType ''ChainID'')
           else bind (decode_length dAtA iNdEx) (\<lambda>(iNdEx, postIndex).
                  Inr (m\<lparr>vote_ChainID := slice dAtA iNdEx postIndex\<rparr>, postIndex)))
        else if fieldNum = 7 then
          (if wireType \<noteq> 2 then Inl (ErrWrongWireType ''VoteExtension'')
           else bind (decode_length dAtA iNdEx) (\<lambda>(iNdEx, postIndex).
                  bind (VoteExtension_Unmarshal E
                          (case vote_VoteExtension m of None \<Rightarrow> VoteExtension_zero E
                           | Some x \<Rightarrow> x)
                          (slice dAtA iNdEx postIndex)) (\<lambda>x.
                    Inr (m\<lparr>vote_VoteExtension := Some x\<rparr>, postIndex))))
        else bind (skip_unknown dAtA preIndex) (\<lambda>iNdEx. Inr (m, iNdEx))))"

lemma CanonicalVote_Unmarshal_field_progress:
  assumes "CanonicalVote_Unmarshal_field E dAtA iNdEx m = Inr (m', iNdEx')"
  shows "iNdEx < iNdEx'"
proof -
  from assms obtain wire :: "64 word" and i1 where
    tag: "decode_varint dAtA iNdEx = Inr (wire, i1)"
    by (auto simp: CanonicalVote_Unmarshal_field_def bind_def split: sum.splits)
  note p = decode_varint_progress [OF tag]
  from assms tag p show ?thesis
    by (auto simp: CanonicalVote_Unmarshal_field_def bind_def Let_def
        split: sum.splits if_splits
        dest!: decode_varint_progress decode_length_progress decode_fixed64_progress
        dest: skip_unknown_progress)
qed

function CanonicalVote_Unmarshal_loop ::
  "('t, 'x) externals \<Rightarrow> byte list \<Rightarrow> int \<Rightarrow> ('t, 'x) CanonicalVote
     \<Rightarrow> error + ('t, 'x) CanonicalVote" where
  "CanonicalVote_Unmarshal_loop E dAtA iNdEx m =
     (if iNdEx < int (length dAtA) then
        (case CanonicalVote_Unmarshal_field E dAtA iNdEx m of
           Inl e \<Rightarrow> Inl e
         | Inr (m', iNdEx') \<Rightarrow> CanonicalVote_Unmarshal_loop E dAtA iNdEx' m')
      else if iNdEx > int (length dAtA) then Inl ErrUnexpectedEOF
      else Inr m)"
  by pat_completeness auto
termination
  by (relation "measure (\<lambda>(E, dAtA, iNdEx, m). nat (int (length dAtA) - iNdEx))")
    (auto dest!: CanonicalVote_Unmarshal_field_progress)

declare CanonicalVote_Unmarshal_loop.simps [simp del]

definition CanonicalVote_Unmarshal ::
  "('t, 'x) externals \<Rightarrow> ('t, 'x) CanonicalVote \<Rightarrow> byte list
     \<Rightarrow> error + ('t, 'x) CanonicalVote" where
  "CanonicalVote_Unmarshal E m dAtA = CanonicalVote_Unmarshal_loop E dAtA 0 m"


section \<open>Marshal\<close>

subsection \<open>Sizes of varints\<close>

text \<open>\<^verbatim>\<open>math_bits.Len64(x)\<close>: the number of bits needed to write \<open>x\<close>, 0 for \<open>x = 0\<close>.\<close>

definition Len64 :: "64 word \<Rightarrow> nat" where
  "Len64 x = floorlog 2 (unat x)"

definition sovCanonical :: "64 word \<Rightarrow> nat" where
  "sovCanonical x = (Len64 (x OR 1) + 6) div 7"

text \<open>\<^verbatim>\<open>sozCanonical\<close> sizes the zig-zag form of a value; no marshalling code calls it.\<close>

definition sozCanonical :: "64 word \<Rightarrow> nat" where
  "sozCanonical x = sovCanonical (push_bit 1 x XOR signed_drop_bit 63 x)"

subsection \<open>Writing into a buffer from its end\<close>

text \<open>\<^verbatim>\<open>dAtA[i] = b\<close>: Go panics if_do the index is outside the slice.\<close>

definition store :: "byte list \<Rightarrow> int \<Rightarrow> byte \<Rightarrow> error + byte list" where
  "store dAtA i b =
     (if 0 \<le> i \<and> i < int (length dAtA) then Inr (dAtA[nat i := b]) else Inl PanicOutOfRange)"

lemma unat_drop_bit_7_less: "0x80 \<le> (v :: 64 word) \<Longrightarrow> unat (drop_bit 7 v) < unat v"
proof -
  assume "0x80 \<le> v"
  then have "128 \<le> unat v" by (simp add: word_le_nat_alt)
  moreover have "unat (drop_bit 7 v) = unat v div 128"
    by (simp add: drop_bit_eq_div unat_div)
  ultimately show ?thesis by simp
qed

text \<open>
  The loop of \<^verbatim>\<open>encodeVarintCanonical\<close>:
  \<^verbatim>\<open>for v >= 1<<7 { dAtA[offset] = uint8(v&0x7f | 0x80); v >>= 7; offset++ }; dAtA[offset] = uint8(v)\<close>.
\<close>

function encodeVarint_loop :: "byte list \<Rightarrow> int \<Rightarrow> 64 word \<Rightarrow> error + byte list" where
  "encodeVarint_loop dAtA offset v =
     (if 0x80 \<le> v then
        (case store dAtA offset (ucast (v AND 0x7F OR 0x80)) of
           Inl e \<Rightarrow> Inl e
         | Inr dAtA' \<Rightarrow> encodeVarint_loop dAtA' (offset + 1) (drop_bit 7 v))
      else store dAtA offset (ucast v))"
  by pat_completeness auto
termination
  by (relation "measure (\<lambda>(dAtA, offset, v). unat v)") (auto intro: unat_drop_bit_7_less)

declare encodeVarint_loop.simps [simp del]

definition encodeVarintCanonical :: "byte list \<Rightarrow> int \<Rightarrow> 64 word \<Rightarrow> error + (byte list \<times> int)" where
  "encodeVarintCanonical dAtA offset v =
     (let offset = offset - int (sovCanonical v); base = offset in
      bind (encodeVarint_loop dAtA offset v) (\<lambda>dAtA. Inr (dAtA, base)))"

text \<open>
  \<^verbatim>\<open>MarshalToSizedBuffer\<close> fills its buffer from the end: the state is the buffer and the
  index \<open>i\<close> of the first byte written so far. Each statement of the source is a step on
  this state, and a function body is the list of its steps in the order of the source.
\<close>

type_synonym buffer = "byte list \<times> int"

type_synonym step = "buffer \<Rightarrow> error + buffer"

fun run :: "step list \<Rightarrow> step" where
  "run [] s = Inr s"
| "run (f # fs) s = bind (f s) (run fs)"

text \<open>\<^verbatim>\<open>if c { ... }\<close>\<close>

definition if_do :: "bool \<Rightarrow> step list \<Rightarrow> step" where
  "if_do c fs s = (if c then run fs s else Inr s)"

text \<open>\<^verbatim>\<open>i--; dAtA[i] = c\<close>\<close>

definition put_byte :: "byte \<Rightarrow> step" where
  "put_byte c = (\<lambda>(dAtA, i). bind (store dAtA (i - 1) c) (\<lambda>dAtA. Inr (dAtA, i - 1)))"

text \<open>\<^verbatim>\<open>i = encodeVarintCanonical(dAtA, i, v)\<close>\<close>

definition put_varint :: "64 word \<Rightarrow> step" where
  "put_varint v = (\<lambda>(dAtA, i). encodeVarintCanonical dAtA i v)"

text \<open>
  \<^verbatim>\<open>copy(dAtA[i:], src)\<close> copies as many bytes as fit; the slice expression panics if_do
  \<open>i\<close> is outside \<open>0..len(dAtA)\<close>.
\<close>

definition copy_at :: "byte list \<Rightarrow> nat \<Rightarrow> byte list \<Rightarrow> byte list" where
  "copy_at dAtA i src =
     take i dAtA @ take (length dAtA - i) src @ drop (i + length src) dAtA"

text \<open>\<^verbatim>\<open>i -= len(src); copy(dAtA[i:], src)\<close>\<close>

definition put_bytes :: "byte list \<Rightarrow> step" where
  "put_bytes src = (\<lambda>(dAtA, i).
     let i = i - int (length src) in
     if i < 0 \<or> int (length dAtA) < i then Inl PanicOutOfRange
     else Inr (copy_at dAtA (nat i) src, i))"

text \<open>\<^verbatim>\<open>encoding_binary.LittleEndian.PutUint64(b, v)\<close>: it panics on fewer than 8 bytes.\<close>

definition PutUint64 :: "byte list \<Rightarrow> 64 word \<Rightarrow> error + byte list" where
  "PutUint64 b v =
     (if length b < 8 then Inl PanicOutOfRange
      else Inr (b[0 := ucast v, 1 := ucast (drop_bit 8 v), 2 := ucast (drop_bit 16 v),
                  3 := ucast (drop_bit 24 v), 4 := ucast (drop_bit 32 v),
                  5 := ucast (drop_bit 40 v), 6 := ucast (drop_bit 48 v),
                  7 := ucast (drop_bit 56 v)]))"

text \<open>\<^verbatim>\<open>i -= 8; encoding_binary.LittleEndian.PutUint64(dAtA[i:], v)\<close>\<close>

definition put_fixed64 :: "64 word \<Rightarrow> step" where
  "put_fixed64 v = (\<lambda>(dAtA, i).
     let i = i - 8 in
     if i < 0 \<or> int (length dAtA) < i then Inl PanicOutOfRange
     else bind (PutUint64 (drop (nat i) dAtA) v) (\<lambda>b. Inr (take (nat i) dAtA @ b, i)))"

text \<open>
  \<^verbatim>\<open>size, err := x.MarshalToSizedBuffer(dAtA[:i]); i -= size;
  i = encodeVarintCanonical(dAtA, i, uint64(size))\<close>: the callee writes into the front part
  of the same buffer.
\<close>

definition put_nested :: "(byte list \<Rightarrow> error + (byte list \<times> int)) \<Rightarrow> step" where
  "put_nested MarshalToSizedBuffer = (\<lambda>(dAtA, i).
     if i < 0 \<or> int (length dAtA) < i then Inl PanicOutOfRange
     else bind (MarshalToSizedBuffer (take (nat i) dAtA)) (\<lambda>(front, size).
            put_varint (word_of_int size) (front @ drop (nat i) dAtA, i - size)))"

text \<open>
  \<^verbatim>\<open>n, err := StdTimeMarshalTo(t, dAtA[i-SizeOfStdTime(t):]); i -= n;
  i = encodeVarintCanonical(dAtA, i, uint64(n))\<close>: the slice is taken before the call, and
  the callee panics if_do its bytes do not fit the slice.
\<close>

definition put_stdtime :: "('t, 'x) externals \<Rightarrow> 't \<Rightarrow> step" where
  "put_stdtime E t = (\<lambda>(dAtA, i).
     let start = i - int (SizeOfStdTime E t) in
     if start < 0 \<or> int (length dAtA) < start then Inl PanicOutOfRange
     else bind (StdTimeMarshalTo E t) (\<lambda>bs.
            if int (length dAtA) - start < int (length bs) then Inl PanicOutOfRange
            else put_varint (word_of_nat (length bs))
                   (copy_at dAtA (nat start) bs, i - int (length bs))))"

text \<open>
  \<^verbatim>\<open>VoteExtensionToSign.MarshalToSizedBuffer(buf)\<close> on a buffer: its bytes go to the end of
  \<open>buf\<close>, and it panics if_do they do not fit.
\<close>

definition VoteExtension_marshal_into ::
  "('t, 'x) externals \<Rightarrow> 'x \<Rightarrow> byte list \<Rightarrow> error + (byte list \<times> int)" where
  "VoteExtension_marshal_into E x buf =
     bind (VoteExtension_MarshalToSizedBuffer E x) (\<lambda>bs.
       if length buf < length bs then Inl PanicOutOfRange
       else Inr (take (length buf - length bs) buf @ bs, int (length bs)))"

subsection \<open>MarshalToSizedBuffer\<close>

text \<open>The result is the buffer and \<^verbatim>\<open>len(dAtA) - i\<close>, the number of bytes written.\<close>

definition finish :: "byte list \<Rightarrow> error + buffer \<Rightarrow> error + (byte list \<times> int)" where
  "finish dAtA r = bind r (\<lambda>(dAtA', i). Inr (dAtA', int (length dAtA) - i))"

definition CanonicalPartSetHeader_MarshalToSizedBuffer ::
  "CanonicalPartSetHeader \<Rightarrow> byte list \<Rightarrow> error + (byte list \<times> int)" where
  "CanonicalPartSetHeader_MarshalToSizedBuffer m dAtA =
     finish dAtA (run
       [if_do (length (psh_Hash m) > 0)
          [put_bytes (psh_Hash m),
           put_varint (word_of_nat (length (psh_Hash m))),
           put_byte 0x12],
        if_do (psh_Total m \<noteq> 0)
          [put_varint (ucast (psh_Total m)),
           put_byte 0x8]]
       (dAtA, int (length dAtA)))"

definition CanonicalBlockID_MarshalToSizedBuffer ::
  "CanonicalBlockID \<Rightarrow> byte list \<Rightarrow> error + (byte list \<times> int)" where
  "CanonicalBlockID_MarshalToSizedBuffer m dAtA =
     finish dAtA (run
       [put_nested (CanonicalPartSetHeader_MarshalToSizedBuffer (bid_PartSetHeader m)),
        put_byte 0x12,
        if_do (length (bid_Hash m) > 0)
          [put_bytes (bid_Hash m),
           put_varint (word_of_nat (length (bid_Hash m))),
           put_byte 0xa]]
       (dAtA, int (length dAtA)))"

text \<open>
  \<^verbatim>\<open>uint64(m.POLRound)\<close> and \<^verbatim>\<open>uint64(m.Height)\<close> reinterpret the 64 bits; \<^verbatim>\<open>uint64(m.Type)\<close>
  sign-extends the \<^verbatim>\<open>int32\<close>.
\<close>

definition CanonicalProposal_MarshalToSizedBuffer ::
  "('t, 'x) externals \<Rightarrow> 't CanonicalProposal \<Rightarrow> byte list \<Rightarrow> error + (byte list \<times> int)" where
  "CanonicalProposal_MarshalToSizedBuffer E m dAtA =
     finish dAtA (run
       [if_do (length (prop_ChainID m) > 0)
          [put_bytes (prop_ChainID m),
           put_varint (word_of_nat (length (prop_ChainID m))),
           put_byte 0x3a],
        put_stdtime E (prop_Timestamp m),
        put_byte 0x32,
        if_do (prop_BlockID m \<noteq> None)
          [put_nested (CanonicalBlockID_MarshalToSizedBuffer (the (prop_BlockID m))),
           put_byte 0x2a],
        if_do (prop_POLRound m \<noteq> 0)
          [put_varint (prop_POLRound m),
           put_byte 0x20],
        if_do (prop_Round m \<noteq> 0)
          [put_fixed64 (prop_Round m),
           put_byte 0x19],
        if_do (prop_Height m \<noteq> 0)
          [put_fixed64 (prop_Height m),
           put_byte 0x11],
        if_do (prop_Type m \<noteq> 0)
          [put_varint (scast (prop_Type m)),
           put_byte 0x8]]
       (dAtA, int (length dAtA)))"

definition CanonicalVote_MarshalToSizedBuffer ::
  "('t, 'x) externals \<Rightarrow> ('t, 'x) CanonicalVote \<Rightarrow> byte list \<Rightarrow> error + (byte list \<times> int)" where
  "CanonicalVote_MarshalToSizedBuffer E m dAtA =
     finish dAtA (run
       [if_do (vote_VoteExtension m \<noteq> None)
          [put_nested (VoteExtension_marshal_into E (the (vote_VoteExtension m))),
           put_byte 0x3a],
        if_do (length (vote_ChainID m) > 0)
          [put_bytes (vote_ChainID m),
           put_varint (word_of_nat (length (vote_ChainID m))),
           put_byte 0x32],
        put_stdtime E (vote_Timestamp m),
        put_byte 0x2a,
        if_do (vote_BlockID m \<noteq> None)
          [put_nested (CanonicalBlockID_MarshalToSizedBuffer (the (vote_BlockID m))),
           put_byte 0x22],
        if_do (vote_Round m \<noteq> 0)
          [put_fixed64 (vote_Round m),
           put_byte 0x19],
        if_do (vote_Height m \<noteq> 0)
          [put_fixed64 (vote_Height m),
           put_byte 0x11],
        if_do (vote_Type m \<noteq> 0)
          [put_varint (scast (vote_Type m)),
           put_byte 0x8]]
       (dAtA, int (length dAtA)))"

subsection \<open>Size\<close>

definition CanonicalPartSetHeader_Size :: "CanonicalPartSetHeader \<Rightarrow> nat" where
  "CanonicalPartSetHeader_Size m =
     (let n = 0;
          n = (if psh_Total m \<noteq> 0 then n + (1 + sovCanonical (ucast (psh_Total m))) else n);
          l = length (psh_Hash m);
          n = (if l > 0 then n + (1 + l + sovCanonical (word_of_nat l)) else n)
      in n)"

definition CanonicalBlockID_Size :: "CanonicalBlockID \<Rightarrow> nat" where
  "CanonicalBlockID_Size m =
     (let n = 0;
          l = length (bid_Hash m);
          n = (if l > 0 then n + (1 + l + sovCanonical (word_of_nat l)) else n);
          l = CanonicalPartSetHeader_Size (bid_PartSetHeader m);
          n = n + (1 + l + sovCanonical (word_of_nat l))
      in n)"

definition CanonicalProposal_Size :: "('t, 'x) externals \<Rightarrow> 't CanonicalProposal \<Rightarrow> nat" where
  "CanonicalProposal_Size E m =
     (let n = 0;
          n = (if prop_Type m \<noteq> 0 then n + (1 + sovCanonical (scast (prop_Type m))) else n);
          n = (if prop_Height m \<noteq> 0 then n + 9 else n);
          n = (if prop_Round m \<noteq> 0 then n + 9 else n);
          n = (if prop_POLRound m \<noteq> 0 then n + (1 + sovCanonical (prop_POLRound m)) else n);
          n = (case prop_BlockID m of
                 None \<Rightarrow> n
               | Some b \<Rightarrow>
                   (let l = CanonicalBlockID_Size b in n + (1 + l + sovCanonical (word_of_nat l))));
          l = SizeOfStdTime E (prop_Timestamp m);
          n = n + (1 + l + sovCanonical (word_of_nat l));
          l = length (prop_ChainID m);
          n = (if l > 0 then n + (1 + l + sovCanonical (word_of_nat l)) else n)
      in n)"

definition CanonicalVote_Size :: "('t, 'x) externals \<Rightarrow> ('t, 'x) CanonicalVote \<Rightarrow> nat" where
  "CanonicalVote_Size E m =
     (let n = 0;
          n = (if vote_Type m \<noteq> 0 then n + (1 + sovCanonical (scast (vote_Type m))) else n);
          n = (if vote_Height m \<noteq> 0 then n + 9 else n);
          n = (if vote_Round m \<noteq> 0 then n + 9 else n);
          n = (case vote_BlockID m of
                 None \<Rightarrow> n
               | Some b \<Rightarrow>
                   (let l = CanonicalBlockID_Size b in n + (1 + l + sovCanonical (word_of_nat l))));
          l = SizeOfStdTime E (vote_Timestamp m);
          n = n + (1 + l + sovCanonical (word_of_nat l));
          l = length (vote_ChainID m);
          n = (if l > 0 then n + (1 + l + sovCanonical (word_of_nat l)) else n);
          n = (case vote_VoteExtension m of
                 None \<Rightarrow> n
               | Some x \<Rightarrow>
                   (let l = VoteExtension_Size E x in n + (1 + l + sovCanonical (word_of_nat l))))
      in n)"

subsection \<open>Marshal\<close>

text \<open>
  \<^verbatim>\<open>size := m.Size(); dAtA = make([]byte, size); n, err := m.MarshalToSizedBuffer(dAtA[:size]);
  return dAtA[:n], nil\<close>
\<close>

definition marshal_with ::
  "nat \<Rightarrow> (byte list \<Rightarrow> error + (byte list \<times> int)) \<Rightarrow> error + byte list" where
  "marshal_with size0 MarshalToSizedBuffer =
     (let dAtA = replicate size0 0 in
      bind (MarshalToSizedBuffer (take size0 dAtA)) (\<lambda>(dAtA, n).
        if n < 0 \<or> int (length dAtA) < n then Inl PanicOutOfRange
        else Inr (take (nat n) dAtA)))"

definition CanonicalPartSetHeader_Marshal :: "CanonicalPartSetHeader \<Rightarrow> error + byte list" where
  "CanonicalPartSetHeader_Marshal m =
     marshal_with (CanonicalPartSetHeader_Size m) (CanonicalPartSetHeader_MarshalToSizedBuffer m)"

definition CanonicalBlockID_Marshal :: "CanonicalBlockID \<Rightarrow> error + byte list" where
  "CanonicalBlockID_Marshal m =
     marshal_with (CanonicalBlockID_Size m) (CanonicalBlockID_MarshalToSizedBuffer m)"

definition CanonicalProposal_Marshal ::
  "('t, 'x) externals \<Rightarrow> 't CanonicalProposal \<Rightarrow> error + byte list" where
  "CanonicalProposal_Marshal E m =
     marshal_with (CanonicalProposal_Size E m) (CanonicalProposal_MarshalToSizedBuffer E m)"

definition CanonicalVote_Marshal ::
  "('t, 'x) externals \<Rightarrow> ('t, 'x) CanonicalVote \<Rightarrow> error + byte list" where
  "CanonicalVote_Marshal E m =
     marshal_with (CanonicalVote_Size E m) (CanonicalVote_MarshalToSizedBuffer E m)"


section \<open>The byte layout\<close>

text \<open>
  The layout of the encodings as the specification words it: a varint is the minimal
  form of 7 bits per byte with a continuation bit, a \<^verbatim>\<open>fixed64\<close> is 8 little-endian bytes,
  a length-delimited field is its tag, the varint of its length and its bytes, and a
  message is its fields in ascending tag order.
\<close>

function encode_varint :: "64 word \<Rightarrow> byte list" where
  "encode_varint v =
     (if 0x80 \<le> v then ucast (v AND 0x7F OR 0x80) # encode_varint (drop_bit 7 v)
      else [ucast v])"
  by pat_completeness auto
termination
  by (relation "measure unat") (auto intro: unat_drop_bit_7_less)

declare encode_varint.simps [simp del]

definition encode_fixed64 :: "64 word \<Rightarrow> byte list" where
  "encode_fixed64 v = map (\<lambda>k. ucast (drop_bit (8 * k) v)) [0..<8]"

definition varint_field :: "byte \<Rightarrow> 64 word \<Rightarrow> byte list" where
  "varint_field tag v = tag # encode_varint v"

definition fixed64_field :: "byte \<Rightarrow> 64 word \<Rightarrow> byte list" where
  "fixed64_field tag v = tag # encode_fixed64 v"

definition bytes_field :: "byte \<Rightarrow> byte list \<Rightarrow> byte list" where
  "bytes_field tag bs = tag # encode_varint (word_of_nat (length bs)) @ bs"

text \<open>A field with implicit presence: nothing at all when the value is zero or empty.\<close>

definition omit_if :: "bool \<Rightarrow> byte list \<Rightarrow> byte list" where
  "omit_if absent field = (if absent then [] else field)"

definition PartSetHeader_layout :: "CanonicalPartSetHeader \<Rightarrow> byte list" where
  "PartSetHeader_layout m =
     omit_if (psh_Total m = 0) (varint_field 0x08 (ucast (psh_Total m))) @
     omit_if (psh_Hash m = []) (bytes_field 0x12 (psh_Hash m))"

definition BlockID_layout :: "CanonicalBlockID \<Rightarrow> byte list" where
  "BlockID_layout m =
     omit_if (bid_Hash m = []) (bytes_field 0x0A (bid_Hash m)) @
     bytes_field 0x12 (PartSetHeader_layout (bid_PartSetHeader m))"

text \<open>
  The timestamp and the vote extension are encoded outside this file: \<open>ts\<close> and \<open>ext\<close>
  stand for their bytes.
\<close>

definition Proposal_layout :: "byte list \<Rightarrow> 't CanonicalProposal \<Rightarrow> byte list" where
  "Proposal_layout ts m =
     omit_if (prop_Type m = 0) (varint_field 0x08 (scast (prop_Type m))) @
     omit_if (prop_Height m = 0) (fixed64_field 0x11 (prop_Height m)) @
     omit_if (prop_Round m = 0) (fixed64_field 0x19 (prop_Round m)) @
     omit_if (prop_POLRound m = 0) (varint_field 0x20 (prop_POLRound m)) @
     (case prop_BlockID m of None \<Rightarrow> [] | Some b \<Rightarrow> bytes_field 0x2A (BlockID_layout b)) @
     bytes_field 0x32 ts @
     omit_if (prop_ChainID m = []) (bytes_field 0x3A (prop_ChainID m))"

definition Vote_layout :: "byte list \<Rightarrow> byte list option \<Rightarrow> ('t, 'x) CanonicalVote \<Rightarrow> byte list" where
  "Vote_layout ts ext m =
     omit_if (vote_Type m = 0) (varint_field 0x08 (scast (vote_Type m))) @
     omit_if (vote_Height m = 0) (fixed64_field 0x11 (vote_Height m)) @
     omit_if (vote_Round m = 0) (fixed64_field 0x19 (vote_Round m)) @
     (case vote_BlockID m of None \<Rightarrow> [] | Some b \<Rightarrow> bytes_field 0x22 (BlockID_layout b)) @
     bytes_field 0x2A ts @
     omit_if (vote_ChainID m = []) (bytes_field 0x32 (vote_ChainID m)) @
     (case ext of None \<Rightarrow> [] | Some bs \<Rightarrow> bytes_field 0x3A bs)"

text \<open>
  The bytes \<open>ext\<close> of the vote extension of a vote: none when the vote has no extension,
  and otherwise what the extension's own marshalling writes, which must be as many
  bytes as its \<^verbatim>\<open>Size\<close> announces.
\<close>

definition ext_bytes :: "('t, 'x) externals \<Rightarrow> 'x option \<Rightarrow> byte list option \<Rightarrow> bool" where
  "ext_bytes E x ext \<longleftrightarrow>
     (case x of
        None \<Rightarrow> ext = None
      | Some x \<Rightarrow>
          (case VoteExtension_MarshalToSizedBuffer E x of
             Inl e \<Rightarrow> False
           | Inr xb \<Rightarrow> ext = Some xb \<and> length xb = VoteExtension_Size E x))"


section \<open>A timestamp codec and a vote extension for concrete runs\<close>

text \<open>
  Modelled from the spec: the timestamp codec, which the code takes from gogoproto
  (\<^verbatim>\<open>SizeOfStdTime\<close>, \<^verbatim>\<open>StdTimeMarshalTo\<close>, \<^verbatim>\<open>StdTimeUnmarshal\<close>). The specification says:
  a point in time is normalised to seconds and nanoseconds with the nanoseconds in
  \<open>[0, 1e9)\<close> and encoded as a nested message of two fields; decoding a nanosecond
  remainder outside that range fails. Both fields are varints with implicit presence,
  under tags 1 and 2.
\<close>

record Timestamp =
  seconds :: "64 word"
  nanos :: "32 word"

definition Timestamp_normalized :: "Timestamp \<Rightarrow> bool" where
  "Timestamp_normalized t \<longleftrightarrow> 0 \<le> sint (nanos t) \<and> sint (nanos t) < 1000000000"

definition Timestamp_layout :: "Timestamp \<Rightarrow> byte list" where
  "Timestamp_layout t =
     omit_if (seconds t = 0) (varint_field 0x08 (seconds t)) @
     omit_if (nanos t = 0) (varint_field 0x10 (scast (nanos t)))"

definition Timestamp_MarshalTo :: "Timestamp \<Rightarrow> error + byte list" where
  "Timestamp_MarshalTo t =
     (if Timestamp_normalized t then Inr (Timestamp_layout t)
      else Inl (ErrExternal ''timestamp out of range''))"

function Timestamp_Unmarshal_loop :: "byte list \<Rightarrow> int \<Rightarrow> Timestamp \<Rightarrow> error + Timestamp" where
  "Timestamp_Unmarshal_loop dAtA iNdEx t =
     (if iNdEx < int (length dAtA) then
        (case decode_varint dAtA iNdEx of
           Inl e \<Rightarrow> Inl e
         | Inr (wire :: 64 word, iNdEx) \<Rightarrow>
             if wire = 0x08 then
               (case decode_varint dAtA iNdEx of
                  Inl e \<Rightarrow> Inl e
                | Inr (v, iNdEx) \<Rightarrow> Timestamp_Unmarshal_loop dAtA iNdEx (t\<lparr>seconds := v\<rparr>))
             else if wire = 0x10 then
               (case decode_varint dAtA iNdEx of
                  Inl e \<Rightarrow> Inl e
                | Inr (v, iNdEx) \<Rightarrow> Timestamp_Unmarshal_loop dAtA iNdEx (t\<lparr>nanos := v\<rparr>))
             else Inl (ErrExternal ''timestamp: unknown field''))
      else if Timestamp_normalized t then Inr t
      else Inl (ErrExternal ''InvalidTimestamp''))"
  by pat_completeness auto
termination
  by (relation "measure (\<lambda>(dAtA, iNdEx, t). nat (int (length dAtA) - iNdEx))")
    (auto dest!: decode_varint_progress)

declare Timestamp_Unmarshal_loop.simps [simp del]

definition Timestamp_Unmarshal :: "byte list \<Rightarrow> error + Timestamp" where
  "Timestamp_Unmarshal dAtA = Timestamp_Unmarshal_loop dAtA 0 \<lparr>seconds = 0, nanos = 0\<rparr>"

text \<open>
  Modelled from the spec: \<^verbatim>\<open>VoteExtensionToSign\<close>, declared in another file of the
  repository. The specification calls the vote extension an opaque payload whose bytes
  this code carries and does not interpret: the payload is a byte sequence and its
  encoding is the payload itself.
\<close>

definition std_externals :: "(Timestamp, byte list) externals" where
  "std_externals =
     \<lparr>SizeOfStdTime = (\<lambda>t. length (Timestamp_layout t)),
      StdTimeMarshalTo = Timestamp_MarshalTo,
      StdTimeUnmarshal = Timestamp_Unmarshal,
      VoteExtension_Size = length,
      VoteExtension_MarshalToSizedBuffer = Inr,
      VoteExtension_Unmarshal = (\<lambda>m dAtA. Inr dAtA),
      VoteExtension_zero = []\<rparr>"

text \<open>
  Concrete messages for the runs below: a block id, a precommit at height 12345 and round
  2 on chain \<^verbatim>\<open>test-chain\<close> at 2024-01-01T00:00:00Z, and a proposal with \<open>pol_round = -1\<close>
  (all 64 bits set).
\<close>

definition example_Timestamp :: Timestamp where
  "example_Timestamp = \<lparr>seconds = 1704067200, nanos = 0\<rparr>"

definition example_BlockID :: CanonicalBlockID where
  "example_BlockID =
     \<lparr>bid_Hash = [1, 2, 3], bid_PartSetHeader = \<lparr>psh_Total = 1, psh_Hash = [4, 5]\<rparr>\<rparr>"

definition test_chain :: "byte list" where
  "test_chain = [0x74, 0x65, 0x73, 0x74, 0x2D, 0x63, 0x68, 0x61, 0x69, 0x6E]"

definition example_Vote :: "(Timestamp, byte list) CanonicalVote" where
  "example_Vote =
     \<lparr>vote_Type = 2, vote_Height = 12345, vote_Round = 2,
      vote_BlockID = Some example_BlockID, vote_Timestamp = example_Timestamp,
      vote_ChainID = test_chain, vote_VoteExtension = None\<rparr>"

definition example_Proposal :: "Timestamp CanonicalProposal" where
  "example_Proposal =
     \<lparr>prop_Type = 32, prop_Height = 12345, prop_Round = 2,
      prop_POLRound = 0xFFFFFFFFFFFFFFFF, prop_BlockID = Some example_BlockID,
      prop_Timestamp = example_Timestamp, prop_ChainID = test_chain\<rparr>"

text \<open>The zig-zag mapping of a signed 64-bit value, \<^verbatim>\<open>(x << 1) ^ (x >> 63)\<close>.\<close>

definition zigzag :: "64 word \<Rightarrow> 64 word" where
  "zigzag x = push_bit 1 x XOR signed_drop_bit 63 x"

text \<open>A proposal whose only content is its chain id, at the zero timestamp.\<close>


definition empty_Proposal :: "Timestamp CanonicalProposal" where
  "empty_Proposal =
     \<lparr>prop_Type = 0, prop_Height = 0, prop_Round = 0, prop_POLRound = 0,
      prop_BlockID = None, prop_Timestamp = \<lparr>seconds = 0, nanos = 0\<rparr>,
      prop_ChainID = test_chain\<rparr>"


section \<open>Facts about indices and the skipper\<close>


lemma wrap64_id: "0 \<le> x \<Longrightarrow> x \<le> MaxInt64 \<Longrightarrow> wrap64 x = x"
  by (simp add: wrap64_cases MaxInt64_def)


lemmas decode_eval = decode_varint_def decode_varint_loop.simps index_def MaxInt64_def
  wireType_of_def



lemma decode_varint_loop_drop:
  "int (length dAtA) \<le> MaxInt64 \<Longrightarrow> 0 \<le> k \<Longrightarrow> k \<le> iNdEx \<Longrightarrow>
   decode_varint_loop (drop (nat k) dAtA) (iNdEx - k) shift x =
     (case decode_varint_loop dAtA iNdEx shift x of
        Inl e \<Rightarrow> Inl e | Inr (v, i) \<Rightarrow> Inr (v, i - k))"
proof (induction dAtA iNdEx shift x rule: decode_varint_loop.induct)
  case (1 dAtA iNdEx shift x)
  show ?case
  proof (cases "64 \<le> shift \<or> int (length dAtA) \<le> iNdEx")
    case True
    with "1.prems" show ?thesis
      by (subst decode_varint_loop.simps, subst (2) decode_varint_loop.simps) auto
  next
    case False
    from "1.prems" have nk: "nat k + nat (iNdEx - k) = nat iNdEx" by linarith
    from False "1.prems" have ix: "index dAtA iNdEx = Inr (dAtA ! nat iNdEx)"
      "index (drop (nat k) dAtA) (iNdEx - k) = Inr (dAtA ! nat iNdEx)"
      by (auto simp: index_def nk)
    show ?thesis
    proof (cases "dAtA ! nat iNdEx < 0x80")
      case True
      with False ix "1.prems" show ?thesis
        by (subst decode_varint_loop.simps, subst (2) decode_varint_loop.simps)
          (auto simp: Let_def)
    next
      case nt: False
      have "decode_varint_loop (drop (nat k) dAtA) (iNdEx + 1 - k) (shift + 7)
              (x OR push_bit shift (ucast (dAtA ! nat iNdEx AND 0x7F))) =
            (case decode_varint_loop dAtA (iNdEx + 1) (shift + 7)
                    (x OR push_bit shift (ucast (dAtA ! nat iNdEx AND 0x7F))) of
               Inl e \<Rightarrow> Inl e | Inr (v, i) \<Rightarrow> Inr (v, i - k))"
        using False nt ix(1) "1.prems"
        by (intro "1.IH" [OF _ _ ix(1) refl]) auto
      with False nt ix "1.prems" show ?thesis
        by (subst decode_varint_loop.simps, subst (2) decode_varint_loop.simps)
          (auto simp: Let_def add_diff_eq [symmetric] diff_add_eq)
    qed
  qed
qed

lemma decode_varint_drop:
  "int (length dAtA) \<le> MaxInt64 \<Longrightarrow> decode_varint dAtA iNdEx = Inr (v, i) \<Longrightarrow>
   0 \<le> k \<Longrightarrow> k \<le> iNdEx \<Longrightarrow>
   decode_varint (drop (nat k) dAtA) (iNdEx - k) = Inr (v, i - k)"
  unfolding decode_varint_def by (simp add: decode_varint_loop_drop)

lemma skip_unknown_truncated:
  assumes l: "int (length dAtA) \<le> MaxInt64"
    and tag: "decode_varint dAtA iNdEx = Inr (wire, i1)" and wt: "wireType_of wire = 2"
    and len: "decode_varint dAtA i1 = Inr (len :: 64 word, i2)" and nn: "0 \<le> sint len"
    and big: "int (length dAtA) < i2 + sint len" and fit: "i2 + sint len \<le> MaxInt64"
  shows "skip_unknown dAtA iNdEx = Inl ErrUnexpectedEOF"
proof -
  note p = decode_varint_progress [OF tag] and q = decode_varint_progress [OF len]
  let ?d = "drop (nat iNdEx) dAtA"
  have tag': "decode_varint ?d 0 = Inr (wire, i1 - iNdEx)"
    using decode_varint_drop [OF l tag, of iNdEx] p by simp
  have len': "decode_varint ?d (i1 - iNdEx) = Inr (len, i2 - iNdEx)"
    using decode_varint_drop [OF l len, of iNdEx] p by simp
  have w: "wrap64 (i2 - iNdEx + sint len) = i2 - iNdEx + sint len"
    using p q nn fit by (intro wrap64_id) auto
  have sf: "skip_field ?d 0 0 = Inr (i2 - iNdEx + sint len, 0)"
    using tag' len' wt nn w p q by (simp add: skip_field_def bind_def)
  have "nat iNdEx < length dAtA" using p by linarith
  then have "0 < int (length ?d)" using p by simp
  with p have sk: "skipCanonical ?d = Inr (i2 - iNdEx + sint len)"
    unfolding skipCanonical_def by (subst skip_loop.simps) (simp add: sf)
  have w2: "wrap64 (iNdEx + (i2 - iNdEx + sint len)) = i2 + sint len"
    using p q nn fit by (subst wrap64_id) auto
  show ?thesis
    using sk w2 p q nn big by (simp add: skip_unknown_def bind_def)
qed

lemmas unmarshal_eval = decode_eval fieldNum_of_def bind_def Let_def
  skip_unknown_def skipCanonical_def skip_loop.simps skip_field_def skip_varint_loop.simps
  decode_length_def decode_fixed64_def Uint64_def slice_def wrap64_def


section \<open>The marshalling code writes the layout\<close>

subsection \<open>Varints\<close>


lemma floorlog_div_pow: "2 ^ c \<le> x \<Longrightarrow> floorlog 2 x = floorlog 2 (x div 2 ^ c) + c"
proof (induction c arbitrary: x)
  case 0
  then show ?case by simp
next
  case (Suc c)
  then have "2 ^ c \<le> x div 2" by simp
  from Suc.IH [OF this] have "floorlog 2 (x div 2) = floorlog 2 (x div 2 div 2 ^ c) + c" .
  moreover have "0 < x" using Suc.prems by (metis gr0I not_le zero_less_numeral zero_less_power)
  then have "floorlog 2 x = floorlog 2 (x div 2) + 1" by (subst compute_floorlog) simp
  ultimately show ?case by (simp add: div_mult2_eq)
qed

lemma Len64_or_1: "Len64 (v OR 1) = floorlog 2 (unat v div 2) + 1"
proof -
  have pos: "0 < unat (v OR 1)"
    by (metis bit_0 bit_or_iff odd_one unat_gt_0 even_zero)
  have "drop_bit 1 (v OR 1) = drop_bit 1 v"
    by (rule bit_word_eqI) (simp add: bit_simps)
  then have "unat (v OR 1) div 2 = unat v div 2"
    by (metis drop_bit_eq_div power_one_right unat_drop_bit_eq)
  with pos show ?thesis
    unfolding Len64_def by (subst compute_floorlog) simp
qed

lemma sovCanonical_small: "\<not> 0x80 \<le> (v :: 64 word) \<Longrightarrow> sovCanonical v = 1"
proof -
  assume "\<not> 0x80 \<le> v"
  then have "unat v < 128" by (simp add: word_le_nat_alt)
  then have "unat v div 2 < 2 ^ 6" by simp
  then have "floorlog 2 (unat v div 2) \<le> 6" by (intro floorlog_leI) auto
  then show ?thesis by (simp add: sovCanonical_def Len64_or_1)
qed

lemma sovCanonical_large:
  "0x80 \<le> (v :: 64 word) \<Longrightarrow> sovCanonical v = Suc (sovCanonical (drop_bit 7 v))"
proof -
  assume "0x80 \<le> v"
  then have big: "128 \<le> unat v" by (simp add: word_le_nat_alt)
  have u: "unat (drop_bit 7 v) = unat v div 128"
    by (simp add: drop_bit_eq_div unat_div)
  from big have "2 ^ 6 \<le> unat v div 2" by (simp add: le_div_geq)
  from floorlog_div_pow [OF this]
  have a: "floorlog 2 (unat v div 2) = floorlog 2 (unat v div 128) + 6"
    by (simp add: div_mult2_eq [symmetric])
  from big have "0 < unat v div 128" by simp
  then have b: "floorlog 2 (unat v div 128) = floorlog 2 (unat v div 128 div 2) + 1"
    by (subst compute_floorlog) simp
  show ?thesis
    by (simp add: sovCanonical_def Len64_or_1 u a b)
qed

lemma length_encode_varint: "length (encode_varint v) = sovCanonical v"
proof (induction v rule: encode_varint.induct)
  case (1 v)
  show ?case
  proof (cases "0x80 \<le> v")
    case True
    with "1.IH" show ?thesis
      by (subst encode_varint.simps) (simp add: sovCanonical_large)
  next
    case False
    then show ?thesis
      by (subst encode_varint.simps) (simp add: sovCanonical_small)
  qed
qed

lemma encode_varint_nonempty: "encode_varint v \<noteq> []"
  by (subst encode_varint.simps) simp

lemma encodeVarint_loop_writes:
  "off + length (encode_varint v) \<le> length dAtA \<Longrightarrow>
   encodeVarint_loop dAtA (int off) v =
     Inr (take off dAtA @ encode_varint v @ drop (off + length (encode_varint v)) dAtA)"
proof (induction v arbitrary: dAtA off rule: encode_varint.induct)
  case (1 v)
  show ?case
  proof (cases "0x80 \<le> v")
    case True
    let ?b = "ucast (v AND 0x7F OR 0x80) :: byte"
    from True have ev: "encode_varint v = ?b # encode_varint (drop_bit 7 v)"
      by (subst encode_varint.simps) simp
    from "1.prems" ev have fit: "Suc off + length (encode_varint (drop_bit 7 v)) \<le> length (dAtA[off := ?b])"
      by simp
    from "1.IH" [OF True fit]
    have "encodeVarint_loop (dAtA[off := ?b]) (int (Suc off)) (drop_bit 7 v) =
      Inr (take (Suc off) (dAtA[off := ?b]) @ encode_varint (drop_bit 7 v) @
           drop (Suc off + length (encode_varint (drop_bit 7 v))) (dAtA[off := ?b]))" .
    moreover have "off < length dAtA" using "1.prems" ev by simp
    ultimately show ?thesis
      using True ev
      by (subst encodeVarint_loop.simps)
        (simp add: store_def take_Suc_conv_app_nth add.commute [of 1])
  next
    case False
    then have ev: "encode_varint v = [ucast v]"
      by (subst encode_varint.simps) simp
    with "1.prems" have "off < length dAtA" by simp
    with False ev show ?thesis
      by (subst encodeVarint_loop.simps) (simp add: store_def upd_conv_take_nth_drop)
  qed
qed


subsection \<open>Steps\<close>

text \<open>
  A step writes \<open>bs\<close> when, on every buffer with room for them, it puts \<open>bs\<close> right before
  the bytes written so far, moves the index to their start and leaves the rest alone.
\<close>


definition step_ok :: "step \<Rightarrow> byte list \<Rightarrow> bool" where
  "step_ok f bs \<longleftrightarrow>
     (\<forall>dAtA i. i \<le> length dAtA \<and> length bs \<le> i \<longrightarrow>
        f (dAtA, int i) =
          Inr (take (i - length bs) dAtA @ bs @ drop i dAtA, int (i - length bs)))"

definition marshal_ok :: "(byte list \<Rightarrow> error + (byte list \<times> int)) \<Rightarrow> byte list \<Rightarrow> bool" where
  "marshal_ok F bs \<longleftrightarrow>
     (\<forall>dAtA. length bs \<le> length dAtA \<longrightarrow>
        F dAtA = Inr (take (length dAtA - length bs) dAtA @ bs, int (length bs)))"

lemma step_ok_run_Nil: "step_ok (run []) []"
  by (simp add: step_ok_def)

lemma step_ok_run_Cons:
  assumes "step_ok f bs" and "step_ok (run fs) cs"
  shows "step_ok (run (f # fs)) (cs @ bs)"
  unfolding step_ok_def
proof (intro allI impI)
  fix dAtA :: "byte list" and i
  assume a: "i \<le> length dAtA \<and> length (cs @ bs) \<le> i"
  let ?d = "take (i - length bs) dAtA @ bs @ drop i dAtA"
  let ?j = "i - length bs"
  from a assms(1) have 1: "f (dAtA, int i) = Inr (?d, int ?j)"
    by (simp add: step_ok_def)
  from a have "?j \<le> length ?d \<and> length cs \<le> ?j" by (simp add: min_def) arith
  with assms(2) have 2: "run fs (?d, int ?j) =
      Inr (take (?j - length cs) ?d @ cs @ drop ?j ?d, int (?j - length cs))"
    unfolding step_ok_def by blast
  from a have "take (?j - length cs) ?d = take (i - length (cs @ bs)) dAtA"
    "drop ?j ?d = bs @ drop i dAtA"
    by (simp_all add: min_def add.commute)
  with 1 2 show "run (f # fs) (dAtA, int i) =
      Inr (take (i - length (cs @ bs)) dAtA @ (cs @ bs) @ drop i dAtA, int (i - length (cs @ bs)))"
    by (simp add: bind_def)
qed

lemma step_ok_if_do:
  "(c \<Longrightarrow> step_ok (run fs) bs) \<Longrightarrow> step_ok (if_do c fs) (omit_if (\<not> c) bs)"
  by (auto simp: step_ok_def if_do_def omit_if_def)

lemma step_ok_put_byte: "step_ok (put_byte c) [c]"
  by (auto simp: step_ok_def put_byte_def store_def bind_def upd_conv_take_nth_drop
      of_nat_diff Suc_diff_le nat_diff_distrib')

lemma step_ok_put_bytes: "step_ok (put_bytes src) src"
  by (auto simp: step_ok_def put_bytes_def copy_at_def Let_def of_nat_diff nat_diff_distrib')

lemma step_ok_put_varint: "step_ok (put_varint v) (encode_varint v)"
  unfolding step_ok_def
proof (intro allI impI)
  fix dAtA :: "byte list" and i
  assume a: "i \<le> length dAtA \<and> length (encode_varint v) \<le> i"
  let ?n = "length (encode_varint v)"
  from a have "(i - ?n) + ?n \<le> length dAtA" by simp
  from encodeVarint_loop_writes [OF this] a
  show "put_varint v (dAtA, int i) =
      Inr (take (i - ?n) dAtA @ encode_varint v @ drop i dAtA, int (i - ?n))"
    by (simp add: put_varint_def encodeVarintCanonical_def bind_def Let_def
        length_encode_varint [symmetric] of_nat_diff)
qed

lemma length_encode_fixed64: "length (encode_fixed64 v) = 8"
  by (simp add: encode_fixed64_def)

lemma upt_8: "[0..<8] = [0, 1, 2, 3, 4, 5, 6, 7]"
  by (simp add: upt_rec)

lemma PutUint64_writes:
  assumes "8 \<le> length b"
  shows "PutUint64 b v = Inr (encode_fixed64 v @ drop 8 b)"
proof -
  from assms obtain b0 b1 b2 b3 b4 b5 b6 b7 r where
    b: "b = b0 # b1 # b2 # b3 # b4 # b5 # b6 # b7 # r"
    by (auto simp: numeral_eq_Suc Suc_le_length_iff)
  show ?thesis
    unfolding b by (simp add: PutUint64_def encode_fixed64_def upt_8)
qed

lemma step_ok_put_fixed64: "step_ok (put_fixed64 v) (encode_fixed64 v)"
  unfolding step_ok_def
proof (intro allI impI)
  fix dAtA :: "byte list" and i
  assume a: "i \<le> length dAtA \<and> length (encode_fixed64 v) \<le> i"
  then have 8: "8 \<le> i" by (simp add: length_encode_fixed64)
  with a have "8 \<le> length (drop (i - 8) dAtA)" by simp arith
  from PutUint64_writes [OF this] a 8
  show "put_fixed64 v (dAtA, int i) =
      Inr (take (i - length (encode_fixed64 v)) dAtA @ encode_fixed64 v @ drop i dAtA,
           int (i - length (encode_fixed64 v)))"
    by (simp add: put_fixed64_def bind_def Let_def length_encode_fixed64 of_nat_diff
        nat_diff_distrib')
qed



lemma step_ok_put_nested:
  assumes "marshal_ok F bs"
  shows "step_ok (put_nested F) (encode_varint (word_of_nat (length bs)) @ bs)"
  unfolding step_ok_def
proof (intro allI impI)
  fix dAtA :: "byte list" and i
  let ?v = "encode_varint (word_of_nat (length bs))"
  assume a: "i \<le> length dAtA \<and> length (?v @ bs) \<le> i"
  let ?j = "i - length bs"
  let ?d = "take ?j dAtA @ bs @ drop i dAtA"
  from a have li: "length (take i dAtA) = i" and lb: "length bs \<le> i" by simp_all
  from assms have "length bs \<le> length (take i dAtA) \<longrightarrow> F (take i dAtA) =
      Inr (take (length (take i dAtA) - length bs) (take i dAtA) @ bs, int (length bs))"
    unfolding marshal_ok_def by blast
  with lb have 1: "F (take i dAtA) = Inr (take ?j dAtA @ bs, int (length bs))"
    unfolding li by (simp add: min_def)
  from a have "?j \<le> length ?d \<and> length ?v \<le> ?j" by (simp add: min_def) arith
  with step_ok_put_varint [of "word_of_nat (length bs)"]
  have 2: "put_varint (word_of_nat (length bs)) (?d, int ?j) =
      Inr (take (?j - length ?v) ?d @ ?v @ drop ?j ?d, int (?j - length ?v))"
    unfolding step_ok_def by blast
  from a have "take (?j - length ?v) ?d = take (i - length (?v @ bs)) dAtA"
    "drop ?j ?d = bs @ drop i dAtA"
    by (simp_all add: min_def add.commute)
  with 1 2 a show "put_nested F (dAtA, int i) =
      Inr (take (i - length (?v @ bs)) dAtA @ (?v @ bs) @ drop i dAtA,
           int (i - length (?v @ bs)))"
    by (simp add: put_nested_def bind_def of_nat_diff)
qed

lemma step_ok_put_stdtime:
  assumes "StdTimeMarshalTo E t = Inr bs" and "length bs = SizeOfStdTime E t"
  shows "step_ok (put_stdtime E t) (encode_varint (word_of_nat (length bs)) @ bs)"
  unfolding step_ok_def
proof (intro allI impI)
  fix dAtA :: "byte list" and i
  let ?v = "encode_varint (word_of_nat (length bs))"
  assume a: "i \<le> length dAtA \<and> length (?v @ bs) \<le> i"
  let ?j = "i - length bs"
  let ?d = "take ?j dAtA @ bs @ drop i dAtA"
  from a have "length bs \<le> length dAtA - ?j" "?j + length bs = i" by auto
  then have cp: "copy_at dAtA ?j bs = ?d"
    by (simp add: copy_at_def)
  from a have "?j \<le> length ?d \<and> length ?v \<le> ?j" by (simp add: min_def) arith
  with step_ok_put_varint [of "word_of_nat (length bs)"]
  have 2: "put_varint (word_of_nat (length bs)) (?d, int ?j) =
      Inr (take (?j - length ?v) ?d @ ?v @ drop ?j ?d, int (?j - length ?v))"
    unfolding step_ok_def by blast
  from a have "take (?j - length ?v) ?d = take (i - length (?v @ bs)) dAtA"
    "drop ?j ?d = bs @ drop i dAtA"
    by (simp_all add: min_def add.commute)
  moreover from a have st: "int i - int (SizeOfStdTime E t) = int ?j"
    unfolding assms(2) [symmetric] by (simp add: of_nat_diff)
  moreover from a have "int i - int (length bs) = int ?j" by (simp add: of_nat_diff)
  moreover from a have "\<not> int (length dAtA) - int ?j < int (length bs)" by auto
  ultimately show "put_stdtime E t (dAtA, int i) =
      Inr (take (i - length (?v @ bs)) dAtA @ (?v @ bs) @ drop i dAtA,
           int (i - length (?v @ bs)))"
    using 2 cp assms(1) a
    by (simp add: put_stdtime_def bind_def Let_def del: of_nat_diff)
qed

lemma marshal_ok_VoteExtension:
  "VoteExtension_MarshalToSizedBuffer E x = Inr bs \<Longrightarrow>
   marshal_ok (VoteExtension_marshal_into E x) bs"
  by (simp add: marshal_ok_def VoteExtension_marshal_into_def bind_def)

lemma finish_run:
  "step_ok (run fs) bs \<Longrightarrow> length bs \<le> length dAtA \<Longrightarrow>
   finish dAtA (run fs (dAtA, int (length dAtA))) =
     Inr (take (length dAtA - length bs) dAtA @ bs, int (length bs))"
  by (simp add: step_ok_def finish_def bind_def of_nat_diff)

lemma marshal_with_ok: "marshal_ok F bs \<Longrightarrow> marshal_with (length bs) F = Inr bs"
  by (simp add: marshal_ok_def marshal_with_def bind_def)

lemma step_ok_cong: "step_ok f bs \<Longrightarrow> bs = cs \<Longrightarrow> step_ok f cs"
  by simp

lemmas step_ok_intros = step_ok_run_Nil step_ok_run_Cons step_ok_if_do step_ok_put_byte
  step_ok_put_bytes step_ok_put_varint step_ok_put_fixed64

lemmas layout_defs = omit_if_def varint_field_def fixed64_field_def bytes_field_def


subsection \<open>Messages\<close>

lemma marshal_ok_PartSetHeader:
  "marshal_ok (CanonicalPartSetHeader_MarshalToSizedBuffer m) (PartSetHeader_layout m)"
proof -
  have "step_ok (run
       [if_do (length (psh_Hash m) > 0)
          [put_bytes (psh_Hash m),
           put_varint (word_of_nat (length (psh_Hash m))),
           put_byte 0x12],
        if_do (psh_Total m \<noteq> 0)
          [put_varint (ucast (psh_Total m)),
           put_byte 0x8]]) (PartSetHeader_layout m)"
    by (rule step_ok_cong, (rule step_ok_intros)+)
      (simp add: PartSetHeader_layout_def layout_defs)
  then show ?thesis
    unfolding marshal_ok_def CanonicalPartSetHeader_MarshalToSizedBuffer_def
    by (simp add: finish_run del: run.simps)
qed

lemma marshal_ok_BlockID:
  "marshal_ok (CanonicalBlockID_MarshalToSizedBuffer m) (BlockID_layout m)"
proof -
  have "step_ok (run
       [put_nested (CanonicalPartSetHeader_MarshalToSizedBuffer (bid_PartSetHeader m)),
        put_byte 0x12,
        if_do (length (bid_Hash m) > 0)
          [put_bytes (bid_Hash m),
           put_varint (word_of_nat (length (bid_Hash m))),
           put_byte 0xa]]) (BlockID_layout m)"
    by (rule step_ok_cong,
        (rule step_ok_intros step_ok_put_nested marshal_ok_PartSetHeader)+)
      (simp add: BlockID_layout_def layout_defs)
  then show ?thesis
    unfolding marshal_ok_def CanonicalBlockID_MarshalToSizedBuffer_def
    by (simp add: finish_run del: run.simps)
qed



lemma marshal_ok_Proposal:
  assumes "StdTimeMarshalTo E (prop_Timestamp m) = Inr tb"
    and "length tb = SizeOfStdTime E (prop_Timestamp m)"
  shows "marshal_ok (CanonicalProposal_MarshalToSizedBuffer E m) (Proposal_layout tb m)"
proof -
  have "step_ok (run
       [if_do (length (prop_ChainID m) > 0)
          [put_bytes (prop_ChainID m),
           put_varint (word_of_nat (length (prop_ChainID m))),
           put_byte 0x3a],
        put_stdtime E (prop_Timestamp m),
        put_byte 0x32,
        if_do (prop_BlockID m \<noteq> None)
          [put_nested (CanonicalBlockID_MarshalToSizedBuffer (the (prop_BlockID m))),
           put_byte 0x2a],
        if_do (prop_POLRound m \<noteq> 0)
          [put_varint (prop_POLRound m),
           put_byte 0x20],
        if_do (prop_Round m \<noteq> 0)
          [put_fixed64 (prop_Round m),
           put_byte 0x19],
        if_do (prop_Height m \<noteq> 0)
          [put_fixed64 (prop_Height m),
           put_byte 0x11],
        if_do (prop_Type m \<noteq> 0)
          [put_varint (scast (prop_Type m)),
           put_byte 0x8]]) (Proposal_layout tb m)"
    by (rule step_ok_cong,
        (rule step_ok_intros step_ok_put_nested marshal_ok_BlockID
           step_ok_put_stdtime [OF assms])+)
      (cases "prop_BlockID m"; simp add: Proposal_layout_def layout_defs)
  then show ?thesis
    unfolding marshal_ok_def CanonicalProposal_MarshalToSizedBuffer_def
    by (simp add: finish_run del: run.simps)
qed

lemma marshal_ok_Vote:
  assumes "StdTimeMarshalTo E (vote_Timestamp m) = Inr tb"
    and "length tb = SizeOfStdTime E (vote_Timestamp m)"
    and "vote_VoteExtension m = None \<Longrightarrow> ext = None"
    and "\<And>x. vote_VoteExtension m = Some x \<Longrightarrow>
           \<exists>xb. ext = Some xb \<and> VoteExtension_MarshalToSizedBuffer E x = Inr xb"
  shows "marshal_ok (CanonicalVote_MarshalToSizedBuffer E m) (Vote_layout tb ext m)"
proof -
  have x: "step_ok (if_do (vote_VoteExtension m \<noteq> None)
          [put_nested (VoteExtension_marshal_into E (the (vote_VoteExtension m))),
           put_byte 0x3a])
        (case ext of None \<Rightarrow> [] | Some bs \<Rightarrow> bytes_field 0x3A bs)"
  proof (cases "vote_VoteExtension m")
    case None
    with assms(3) show ?thesis by (simp add: step_ok_def if_do_def)
  next
    case (Some x)
    with assms(4) obtain xb where xb: "ext = Some xb"
      "VoteExtension_MarshalToSizedBuffer E x = Inr xb" by blast
    have "step_ok (run [put_nested (VoteExtension_marshal_into E x), put_byte 0x3a])
        (bytes_field 0x3A xb)"
      by (rule step_ok_cong,
          (rule step_ok_intros step_ok_put_nested marshal_ok_VoteExtension [OF xb(2)])+)
        (simp add: layout_defs)
    with Some xb(1) show ?thesis by (simp add: step_ok_def if_do_def del: run.simps)
  qed
  have "step_ok (run
       [if_do (vote_VoteExtension m \<noteq> None)
          [put_nested (VoteExtension_marshal_into E (the (vote_VoteExtension m))),
           put_byte 0x3a],
        if_do (length (vote_ChainID m) > 0)
          [put_bytes (vote_ChainID m),
           put_varint (word_of_nat (length (vote_ChainID m))),
           put_byte 0x32],
        put_stdtime E (vote_Timestamp m),
        put_byte 0x2a,
        if_do (vote_BlockID m \<noteq> None)
          [put_nested (CanonicalBlockID_MarshalToSizedBuffer (the (vote_BlockID m))),
           put_byte 0x22],
        if_do (vote_Round m \<noteq> 0)
          [put_fixed64 (vote_Round m),
           put_byte 0x19],
        if_do (vote_Height m \<noteq> 0)
          [put_fixed64 (vote_Height m),
           put_byte 0x11],
        if_do (vote_Type m \<noteq> 0)
          [put_varint (scast (vote_Type m)),
           put_byte 0x8]]) (Vote_layout tb ext m)"
    by (rule step_ok_cong,
        (rule x step_ok_intros step_ok_put_nested marshal_ok_BlockID
           step_ok_put_stdtime [OF assms(1,2)])+)
      (cases "vote_BlockID m"; simp add: Vote_layout_def layout_defs)
  then show ?thesis
    unfolding marshal_ok_def CanonicalVote_MarshalToSizedBuffer_def
    by (simp add: finish_run del: run.simps)
qed

lemma length_PartSetHeader_layout:
  "length (PartSetHeader_layout m) = CanonicalPartSetHeader_Size m"
  by (simp add: PartSetHeader_layout_def CanonicalPartSetHeader_Size_def layout_defs
      length_encode_varint Let_def)

lemma length_BlockID_layout: "length (BlockID_layout m) = CanonicalBlockID_Size m"
  by (simp add: BlockID_layout_def CanonicalBlockID_Size_def layout_defs
      length_encode_varint length_PartSetHeader_layout Let_def)

lemma length_Proposal_layout:
  "length tb = SizeOfStdTime E (prop_Timestamp m) \<Longrightarrow>
   length (Proposal_layout tb m) = CanonicalProposal_Size E m"
  by (cases "prop_BlockID m")
    (simp_all add: Proposal_layout_def CanonicalProposal_Size_def layout_defs
      length_encode_varint length_BlockID_layout length_encode_fixed64 Let_def)

lemma length_Vote_layout:
  "length tb = SizeOfStdTime E (vote_Timestamp m) \<Longrightarrow>
   (case vote_VoteExtension m of None \<Rightarrow> ext = None
    | Some x \<Rightarrow> \<exists>xb. ext = Some xb \<and> length xb = VoteExtension_Size E x) \<Longrightarrow>
   length (Vote_layout tb ext m) = CanonicalVote_Size E m"
  by (cases "vote_BlockID m"; cases "vote_VoteExtension m")
    (auto simp add: Vote_layout_def CanonicalVote_Size_def layout_defs
      length_encode_varint length_BlockID_layout length_encode_fixed64 Let_def)


subsection \<open>Marshal\<close>


lemma Marshal_PartSetHeader:
  "CanonicalPartSetHeader_Marshal m = Inr (PartSetHeader_layout m)"
  unfolding CanonicalPartSetHeader_Marshal_def length_PartSetHeader_layout [symmetric]
  by (rule marshal_with_ok [OF marshal_ok_PartSetHeader])

lemma Marshal_BlockID: "CanonicalBlockID_Marshal m = Inr (BlockID_layout m)"
  unfolding CanonicalBlockID_Marshal_def length_BlockID_layout [symmetric]
  by (rule marshal_with_ok [OF marshal_ok_BlockID])

lemma Marshal_Proposal:
  assumes "StdTimeMarshalTo E (prop_Timestamp m) = Inr tb"
    and "length tb = SizeOfStdTime E (prop_Timestamp m)"
  shows "CanonicalProposal_Marshal E m = Inr (Proposal_layout tb m)"
  unfolding CanonicalProposal_Marshal_def length_Proposal_layout [OF assms(2), symmetric]
  by (rule marshal_with_ok [OF marshal_ok_Proposal [OF assms]])

lemma Marshal_Vote:
  assumes "StdTimeMarshalTo E (vote_Timestamp m) = Inr tb"
    and "length tb = SizeOfStdTime E (vote_Timestamp m)"
    and "ext_bytes E (vote_VoteExtension m) ext"
  shows "CanonicalVote_Marshal E m = Inr (Vote_layout tb ext m)"
proof -
  from assms(3) have a: "vote_VoteExtension m = None \<Longrightarrow> ext = None"
    and b: "\<And>x. vote_VoteExtension m = Some x \<Longrightarrow>
           \<exists>xb. ext = Some xb \<and> VoteExtension_MarshalToSizedBuffer E x = Inr xb"
    and c: "(case vote_VoteExtension m of None \<Rightarrow> ext = None
        | Some x \<Rightarrow> \<exists>xb. ext = Some xb \<and> length xb = VoteExtension_Size E x)"
    by (auto simp: ext_bytes_def split: option.splits sum.splits)
  show ?thesis
    unfolding CanonicalVote_Marshal_def length_Vote_layout [OF assms(2) c, symmetric]
    by (rule marshal_with_ok [OF marshal_ok_Vote [OF assms(1,2) a b]])
qed

lemma isl_bind: "isl r \<Longrightarrow> isl (bind r f)"
  by (cases r) (simp_all add: bind_def)

lemma isl_bind_right: "(\<And>x. isl (f x)) \<Longrightarrow> isl (bind r f)"
  by (cases r) (simp_all add: bind_def)

lemma run_fails: "f \<in> set fs \<Longrightarrow> (\<And>s. isl (f s)) \<Longrightarrow> isl (run fs s)"
proof (induction fs arbitrary: s)
  case Nil
  then show ?case by simp
next
  case (Cons a fs)
  show ?case
  proof (cases "f = a")
    case True
    with Cons.prems(2) show ?thesis by (simp add: isl_bind)
  next
    case False
    with Cons.prems(1) have "f \<in> set fs" by simp
    then have "isl (run fs s')" for s' by (rule Cons.IH) (rule Cons.prems(2))
    then show ?thesis by (simp add: isl_bind_right)
  qed
qed

lemma put_stdtime_fails: "StdTimeMarshalTo E t = Inl e \<Longrightarrow> isl (put_stdtime E t s)"
  by (cases s) (simp add: put_stdtime_def bind_def Let_def)

lemma put_nested_fails: "(\<And>d. isl (F d)) \<Longrightarrow> isl (put_nested F s)"
  by (cases s) (simp add: put_nested_def isl_bind)

lemma marshal_with_fails: "(\<And>d. isl (F d)) \<Longrightarrow> isl (marshal_with n F)"
  by (simp add: marshal_with_def Let_def isl_bind)

lemma finish_fails: "isl r \<Longrightarrow> isl (finish d r)"
  by (simp add: finish_def isl_bind)

lemma Marshal_Proposal_fails:
  assumes "StdTimeMarshalTo E (prop_Timestamp m) = Inl e"
  shows "isl (CanonicalProposal_Marshal E m)"
  unfolding CanonicalProposal_Marshal_def CanonicalProposal_MarshalToSizedBuffer_def
  by (intro marshal_with_fails finish_fails
      run_fails [where f = "put_stdtime E (prop_Timestamp m)"])
    (simp_all add: put_stdtime_fails [OF assms])

lemma Marshal_Vote_fails_time:
  assumes "StdTimeMarshalTo E (vote_Timestamp m) = Inl e"
  shows "isl (CanonicalVote_Marshal E m)"
  unfolding CanonicalVote_Marshal_def CanonicalVote_MarshalToSizedBuffer_def
  by (intro marshal_with_fails finish_fails
      run_fails [where f = "put_stdtime E (vote_Timestamp m)"])
    (simp_all add: put_stdtime_fails [OF assms])

lemma Marshal_Vote_fails_ext:
  assumes "vote_VoteExtension m = Some x" and "VoteExtension_MarshalToSizedBuffer E x = Inl e"
  shows "isl (CanonicalVote_Marshal E m)"
proof -
  have "isl (put_nested (VoteExtension_marshal_into E x) s)" for s
    by (rule put_nested_fails) (simp add: VoteExtension_marshal_into_def bind_def assms(2))
  then have "isl (if_do (vote_VoteExtension m \<noteq> None)
          [put_nested (VoteExtension_marshal_into E (the (vote_VoteExtension m))),
           put_byte 0x3a] s)" for s
    using assms(1) by (simp add: if_do_def isl_bind)
  then show ?thesis
    unfolding CanonicalVote_Marshal_def CanonicalVote_MarshalToSizedBuffer_def
    by (intro marshal_with_fails finish_fails
      run_fails [where f = "if_do (vote_VoteExtension m \<noteq> None)
          [put_nested (VoteExtension_marshal_into E (the (vote_VoteExtension m))),
           put_byte 0x3a]"]) simp_all
qed


section \<open>The decoders read the layout back\<close>

subsection \<open>Varints\<close>


lemma byte_7F: "(0x7F :: 'b::len word) = mask 7"
  by (simp add: mask_eq_exp_minus_1)

lemma bit_128:
  "bit (128 :: 'b::semiring_bit_operations) k \<longleftrightarrow> possible_bit TYPE('b) k \<and> k = 7"
  using bit_exp_iff [where ?'a = 'b, of 7 k] by simp

lemma varint_step_bits:
  fixes v :: "64 word"
  shows "push_bit shift (ucast (ucast (v AND 0x7F OR 0x80 :: 64 word) AND (0x7F :: byte)) :: 'a::len word)
      OR push_bit (shift + 7) (ucast (drop_bit 7 v)) = push_bit shift (ucast v)"
  unfolding byte_7F
proof (rule bit_word_eqI)
  fix n assume n: "n < LENGTH('a)"
  show "bit (push_bit shift (ucast (ucast (v AND mask 7 OR 128 :: 64 word) AND (mask 7 :: byte)) :: 'a word)
      OR push_bit (shift + 7) (ucast (drop_bit 7 v))) n = bit (push_bit shift (ucast v :: 'a word)) n"
  proof (cases "shift + 7 \<le> n")
    case True
    then have "7 + (n - (shift + 7)) = n - shift" by simp
    with True n show ?thesis
      by (auto simp: bit_simps bit_128 dest: bit_imp_le_length)
  next
    case False
    with n show ?thesis
      by (auto simp: bit_simps bit_128 dest: bit_imp_le_length)
  qed
qed

lemma small_bits:
  fixes v :: "64 word"
  assumes "\<not> 0x80 \<le> v" and "bit v n"
  shows "n < 7"
proof -
  from assms(1) have "v < 2 ^ 7" by simp
  then have "v AND mask 7 = v" by (rule less_mask_eq)
  with assms(2) show ?thesis by (metis bit_and_iff bit_mask_iff)
qed

lemma varint_last_bits:
  fixes v :: "64 word"
  assumes "\<not> 0x80 \<le> v"
  shows "(ucast (ucast v AND (0x7F :: byte)) :: 'a::len word) = ucast v"
  unfolding byte_7F
  by (rule bit_word_eqI) (auto simp: bit_simps dest: small_bits [OF assms])

lemma varint_last_small:
  fixes v :: "64 word"
  assumes "\<not> 0x80 \<le> v"
  shows "(ucast v :: byte) < 0x80"
proof -
  have "(ucast v :: byte) AND mask 7 = ucast v"
    by (rule bit_word_eqI) (auto simp: bit_simps dest: small_bits [OF assms])
  moreover have "(ucast v :: byte) AND mask 7 < 2 ^ 7"
    by (rule and_mask_less') simp
  ultimately show ?thesis by simp
qed

lemma varint_cont_big:
  fixes v :: "64 word"
  shows "\<not> (ucast (v AND 0x7F OR 0x80) :: byte) < 0x80"
proof
  let ?b = "ucast (v AND 0x7F OR 0x80) :: byte"
  assume "?b < 0x80"
  then have "?b < 2 ^ 7" by simp
  then have "?b AND mask 7 = ?b" by (rule less_mask_eq)
  moreover have "bit ?b 7" by (simp add: bit_simps bit_128)
  ultimately show False by (metis bit_and_iff bit_mask_iff less_irrefl)
qed



lemma index_app:
  "int (length (pre @ b # rest)) \<le> MaxInt64 \<Longrightarrow>
   index (pre @ b # rest) (int (length pre)) = Inr b"
  by (simp add: index_def)

lemma decode_varint_loop_encode:
  "int (length (pre @ encode_varint v @ rest)) \<le> MaxInt64 \<Longrightarrow> shift < 64 \<Longrightarrow>
   unat v < 2 ^ (64 - shift) \<Longrightarrow>
   decode_varint_loop (pre @ encode_varint v @ rest) (int (length pre)) shift (x :: 'a::len word) =
     Inr (x OR push_bit shift (ucast v), int (length pre) + int (length (encode_varint v)))"
proof (induction v arbitrary: pre shift x rule: encode_varint.induct)
  case (1 v)
  show ?case
  proof (cases "0x80 \<le> v")
    case True
    let ?b = "ucast (v AND 0x7F OR 0x80) :: byte"
    let ?v' = "drop_bit 7 v"
    let ?x' = "x OR push_bit shift (ucast (?b AND 0x7F))"
    from True have ev: "encode_varint v = ?b # encode_varint ?v'"
      by (subst encode_varint.simps) simp
    from True have big: "128 \<le> unat v" by (simp add: word_le_nat_alt)
    have u: "unat ?v' = unat v div 128" by (simp add: drop_bit_eq_div unat_div)
    from big "1.prems"(3) have "(2::nat) ^ 7 < 2 ^ (64 - shift)" by simp
    then have sh: "7 < 64 - shift" by (simp only: power_strict_increasing_iff) 
    then have sh': "shift + 7 < 64" by simp
    from sh have e: "64 - shift = 7 + (64 - (shift + 7))" by simp
    have "(2::nat) ^ (64 - shift) = 2 ^ 7 * 2 ^ (64 - (shift + 7))"
      by (subst e) (rule power_add)
    then have "(2::nat) ^ (64 - shift) = 128 * 2 ^ (64 - (shift + 7))" by simp
    with "1.prems"(3) have small: "unat ?v' < 2 ^ (64 - (shift + 7))"
      unfolding u by (simp add: less_mult_imp_div_less mult.commute)
    have len: "int (length ((pre @ [?b]) @ encode_varint ?v' @ rest)) \<le> MaxInt64"
      using "1.prems"(1) ev by simp
    from "1.IH" [OF True len sh' small, of ?x']
    have "decode_varint_loop (pre @ ?b # encode_varint ?v' @ rest) (int (length pre) + 1)
        (shift + 7) ?x' =
      Inr (?x' OR push_bit (shift + 7) (ucast ?v'),
           int (length pre) + 1 + int (length (encode_varint ?v')))"
      by (simp add: add.commute)
    moreover have "?x' OR push_bit (shift + 7) (ucast ?v') = x OR push_bit shift (ucast v)"
      by (simp add: or.assoc varint_step_bits)
    moreover have "index (pre @ ?b # encode_varint ?v' @ rest) (int (length pre)) = Inr ?b"
      using "1.prems"(1) ev by (intro index_app) simp
    ultimately show ?thesis
      using "1.prems"(2) varint_cont_big [of v]
      by (subst decode_varint_loop.simps) (simp add: ev Let_def)
  next
    case False
    then have ev: "encode_varint v = [ucast v]"
      by (subst encode_varint.simps) simp
    have "index (pre @ ucast v # rest) (int (length pre)) = Inr (ucast v)"
      using "1.prems"(1) ev by (intro index_app) simp
    then show ?thesis
      using "1.prems"(2) varint_last_small [OF False] varint_last_bits [OF False, where ?'a = 'a]
      by (subst decode_varint_loop.simps) (simp add: ev Let_def)
  qed
qed

lemma decode_varint_at:
  "int (length (pre @ encode_varint v @ rest)) \<le> MaxInt64 \<Longrightarrow>
   decode_varint (pre @ encode_varint v @ rest) (int (length pre)) =
     Inr (ucast v :: 'a::len word, int (length pre) + int (length (encode_varint v)))"
  unfolding decode_varint_def
  using decode_varint_loop_encode [of pre v rest 0 0] unsigned_less [of v, where ?'a = nat]
  by simp


subsection \<open>Tags, lengths and fixed-width values\<close>



lemma decode_varint_single:
  "t < 0x80 \<Longrightarrow> int (length (pre @ t # rest)) \<le> MaxInt64 \<Longrightarrow>
   decode_varint (pre @ t # rest) (int (length pre)) =
     Inr (ucast (t AND 0x7F) :: 'a::len word, int (length pre) + 1)"
  unfolding decode_varint_def
  by (subst decode_varint_loop.simps) (simp add: index_app Let_def)

lemma sint_of_nat_64: "n < 2 ^ 63 \<Longrightarrow> sint (word_of_nat n :: 64 word) = int n"
proof -
  assume n: "n < 2 ^ 63"
  then have "int n < 2 ^ 63" by (metis of_nat_less_numeral_power_cancel_iff)
  then show ?thesis
    by (simp add: sint_uint signed_take_bit_int_eq_self unsigned_of_nat take_bit_int_eq_self
        take_bit_nat_eq_self)
qed

lemma slice_at:
  "slice (pre @ bs @ rest) (int (length pre)) (int (length pre) + int (length bs)) = bs"
  by (simp add: slice_def)

lemma decode_length_at:
  assumes "int (length (pre @ encode_varint (word_of_nat (length bs)) @ bs @ rest)) \<le> MaxInt64"
  shows "decode_length (pre @ encode_varint (word_of_nat (length bs)) @ bs @ rest)
           (int (length pre)) =
         Inr (int (length pre) + int (length (encode_varint (word_of_nat (length bs)))),
              int (length pre) + int (length (encode_varint (word_of_nat (length bs))))
                + int (length bs))"
proof -
  let ?v = "encode_varint (word_of_nat (length bs))"
  from assms have n: "length bs < 2 ^ 63" by (simp add: MaxInt64_def)
  have dv: "decode_varint (pre @ ?v @ bs @ rest) (int (length pre)) =
      Inr (word_of_nat (length bs) :: 64 word, int (length pre) + int (length ?v))"
    using decode_varint_at [OF assms, where ?'a = 64] by simp
  have w: "wrap64 (int (length pre) + int (length ?v) + int (length bs)) =
      int (length pre) + int (length ?v) + int (length bs)"
    using assms by (intro wrap64_id) simp_all
  show ?thesis
    using assms by (simp add: decode_length_def bind_def dv sint_of_nat_64 [OF n] w Let_def)
qed



lemma ucast_byte_bits:
  "bit (push_bit k (ucast (ucast (drop_bit k v) :: byte)) :: 64 word) n \<longleftrightarrow>
     k \<le> n \<and> n < k + 8 \<and> bit (v :: 64 word) n"
  by (auto simp: bit_simps dest: bit_imp_le_length)

lemma Uint64_bits:
  fixes v :: "64 word"
  shows "ucast (ucast v :: byte) OR push_bit 8 (ucast (ucast (drop_bit 8 v) :: byte))
      OR push_bit 16 (ucast (ucast (drop_bit 16 v) :: byte))
      OR push_bit 24 (ucast (ucast (drop_bit 24 v) :: byte))
      OR push_bit 32 (ucast (ucast (drop_bit 32 v) :: byte))
      OR push_bit 40 (ucast (ucast (drop_bit 40 v) :: byte))
      OR push_bit 48 (ucast (ucast (drop_bit 48 v) :: byte))
      OR push_bit 56 (ucast (ucast (drop_bit 56 v) :: byte)) = v"
proof (rule bit_word_eqI)
  fix n assume n: "n < LENGTH(64)"
  have z: "bit (ucast (ucast v :: byte) :: 64 word) n \<longleftrightarrow> n < 8 \<and> bit v n"
    using ucast_byte_bits [of 0 v n] by simp
  from n have "n < 64" by simp
  then have c: "n < 8 \<or> (8 \<le> n \<and> n < 16) \<or> (16 \<le> n \<and> n < 24) \<or> (24 \<le> n \<and> n < 32)
      \<or> (32 \<le> n \<and> n < 40) \<or> (40 \<le> n \<and> n < 48) \<or> (48 \<le> n \<and> n < 56)
      \<or> (56 \<le> n \<and> n < 64)" by arith
  show "bit ((ucast (ucast v :: byte) :: 64 word) OR push_bit 8 (ucast (ucast (drop_bit 8 v) :: byte))
      OR push_bit 16 (ucast (ucast (drop_bit 16 v) :: byte))
      OR push_bit 24 (ucast (ucast (drop_bit 24 v) :: byte))
      OR push_bit 32 (ucast (ucast (drop_bit 32 v) :: byte))
      OR push_bit 40 (ucast (ucast (drop_bit 40 v) :: byte))
      OR push_bit 48 (ucast (ucast (drop_bit 48 v) :: byte))
      OR push_bit 56 (ucast (ucast (drop_bit 56 v) :: byte))) n = bit v n"
    unfolding bit_or_iff z ucast_byte_bits using c by arith
qed

lemma Uint64_encode_fixed64: "Uint64 (encode_fixed64 v @ rest) = Inr v"
  by (simp add: Uint64_def encode_fixed64_def upt_8 Uint64_bits)

lemma decode_fixed64_at:
  "decode_fixed64 (pre @ encode_fixed64 v @ rest) (int (length pre)) =
     Inr (v, int (length pre) + 8)"
  by (simp add: decode_fixed64_def bind_def length_encode_fixed64 Uint64_encode_fixed64)


subsection \<open>CanonicalPartSetHeader\<close>


lemma tag_values:
  "fieldNum_of 0x08 = 1" "wireType_of 0x08 = 0"
  "fieldNum_of 0x0A = 1" "wireType_of 0x0A = 2"
  "fieldNum_of 0x11 = 2" "wireType_of 0x11 = 1"
  "fieldNum_of 0x12 = 2" "wireType_of 0x12 = 2"
  "fieldNum_of 0x19 = 3" "wireType_of 0x19 = 1"
  "fieldNum_of 0x20 = 4" "wireType_of 0x20 = 0"
  "fieldNum_of 0x22 = 4" "wireType_of 0x22 = 2"
  "fieldNum_of 0x2A = 5" "wireType_of 0x2A = 2"
  "fieldNum_of 0x32 = 6" "wireType_of 0x32 = 2"
  "fieldNum_of 0x3A = 7" "wireType_of 0x3A = 2"
  by (simp_all add: fieldNum_of_def wireType_of_def drop_bit_eq_div)

lemma ucast_ucast_32: "(ucast (ucast (T :: 32 word) :: 64 word) :: 32 word) = T"
  by (simp add: ucast_down_ucast_id is_down)

lemma ucast_scast_32: "(ucast (scast (T :: 32 word) :: 64 word) :: 32 word) = T"
  by (rule bit_word_eqI) (auto simp: bit_simps)

lemma PartSetHeader_loop_step:
  "iNdEx < int (length dAtA) \<Longrightarrow>
   CanonicalPartSetHeader_Unmarshal_field dAtA iNdEx m = Inr (m', iNdEx') \<Longrightarrow>
   CanonicalPartSetHeader_Unmarshal_loop dAtA iNdEx m =
     CanonicalPartSetHeader_Unmarshal_loop dAtA iNdEx' m'"
  by (subst CanonicalPartSetHeader_Unmarshal_loop.simps) simp

lemma PartSetHeader_loop_end:
  "CanonicalPartSetHeader_Unmarshal_loop dAtA (int (length dAtA)) m = Inr m"
  by (subst CanonicalPartSetHeader_Unmarshal_loop.simps) simp

lemma PartSetHeader_loop_Total:
  assumes "int (length (pre @ omit_if (T = 0) (varint_field 0x08 (ucast T)) @ rest)) \<le> MaxInt64"
    and "psh_Total m = 0"
  shows "CanonicalPartSetHeader_Unmarshal_loop
           (pre @ omit_if (T = 0) (varint_field 0x08 (ucast T)) @ rest) (int (length pre)) m =
         CanonicalPartSetHeader_Unmarshal_loop
           (pre @ omit_if (T = 0) (varint_field 0x08 (ucast T)) @ rest)
           (int (length (pre @ omit_if (T = 0) (varint_field 0x08 (ucast T)))))
           (m\<lparr>psh_Total := T\<rparr>)"
proof (cases "T = 0")
  case True
  with assms(2) have "m\<lparr>psh_Total := T\<rparr> = m" by (cases m) simp
  with True show ?thesis by (simp add: omit_if_def)
next
  case False
  let ?v = "encode_varint (ucast T)"
  let ?D = "pre @ 0x08 # ?v @ rest"
  from assms(1) False have len: "int (length ?D) \<le> MaxInt64"
    by (simp add: omit_if_def varint_field_def)
  have tag: "decode_varint ?D (int (length pre)) = Inr (0x08 :: 64 word, int (length pre) + 1)"
    using decode_varint_single [of "0x08" pre "?v @ rest", where ?'a = 64] len by simp
  have val: "decode_varint ?D (int (length pre) + 1) =
      Inr (T, int (length pre) + 1 + int (length ?v))"
    using decode_varint_at [of "pre @ [0x08]" "ucast T" rest, where ?'a = 32] len
    by (simp add: ucast_ucast_32 ac_simps)
  have "CanonicalPartSetHeader_Unmarshal_field ?D (int (length pre)) m =
      Inr (m\<lparr>psh_Total := T\<rparr>, int (length pre) + 1 + int (length ?v))"
    by (simp add: CanonicalPartSetHeader_Unmarshal_field_def bind_def tag val tag_values)
  from PartSetHeader_loop_step [OF _ this] False show ?thesis
    by (simp add: omit_if_def varint_field_def ac_simps)
qed

lemma PartSetHeader_loop_Hash:
  assumes "int (length (pre @ omit_if (H = []) (bytes_field 0x12 H) @ rest)) \<le> MaxInt64"
    and "psh_Hash m = []"
  shows "CanonicalPartSetHeader_Unmarshal_loop
           (pre @ omit_if (H = []) (bytes_field 0x12 H) @ rest) (int (length pre)) m =
         CanonicalPartSetHeader_Unmarshal_loop
           (pre @ omit_if (H = []) (bytes_field 0x12 H) @ rest)
           (int (length (pre @ omit_if (H = []) (bytes_field 0x12 H))))
           (m\<lparr>psh_Hash := H\<rparr>)"
proof (cases "H = []")
  case True
  with assms(2) have "m\<lparr>psh_Hash := H\<rparr> = m" by (cases m) simp
  with True show ?thesis by (simp add: omit_if_def)
next
  case False
  let ?v = "encode_varint (word_of_nat (length H))"
  let ?D = "pre @ 0x12 # ?v @ H @ rest"
  from assms(1) False have len: "int (length ?D) \<le> MaxInt64"
    by (simp add: omit_if_def bytes_field_def)
  have tag: "decode_varint ?D (int (length pre)) = Inr (0x12 :: 64 word, int (length pre) + 1)"
    using decode_varint_single [of "0x12" pre "?v @ H @ rest", where ?'a = 64] len by simp
  have val: "decode_length ?D (int (length pre) + 1) =
      Inr (int (length pre) + 1 + int (length ?v),
           int (length pre) + 1 + int (length ?v) + int (length H))"
    using decode_length_at [of "pre @ [0x12]" H rest] len by (simp add: ac_simps)
  have sl: "slice ?D (int (length pre) + 1 + int (length ?v))
      (int (length pre) + 1 + int (length ?v) + int (length H)) = H"
    using slice_at [of "pre @ 0x12 # ?v" H rest] by (simp add: ac_simps)
  have "CanonicalPartSetHeader_Unmarshal_field ?D (int (length pre)) m =
      Inr (m\<lparr>psh_Hash := H\<rparr>, int (length pre) + 1 + int (length ?v) + int (length H))"
    by (simp add: CanonicalPartSetHeader_Unmarshal_field_def bind_def tag val sl tag_values)
  from PartSetHeader_loop_step [OF _ this] False show ?thesis
    by (simp add: omit_if_def bytes_field_def ac_simps)
qed

lemma PartSetHeader_roundtrip:
  assumes "int (length (PartSetHeader_layout m)) \<le> MaxInt64"
  shows "CanonicalPartSetHeader_Unmarshal CanonicalPartSetHeader_zero (PartSetHeader_layout m)
         = Inr m"
proof -
  let ?F1 = "omit_if (psh_Total m = 0) (varint_field 0x08 (ucast (psh_Total m)))"
  let ?F2 = "omit_if (psh_Hash m = []) (bytes_field 0x12 (psh_Hash m))"
  let ?D = "?F1 @ ?F2"
  let ?z = "CanonicalPartSetHeader_zero"
  have D: "PartSetHeader_layout m = ?D" by (simp add: PartSetHeader_layout_def)
  have 1: "CanonicalPartSetHeader_Unmarshal_loop ?D 0 ?z =
      CanonicalPartSetHeader_Unmarshal_loop ?D (int (length ?F1)) (?z\<lparr>psh_Total := psh_Total m\<rparr>)"
    using PartSetHeader_loop_Total [of "[]" "psh_Total m" ?F2 ?z] assms
    by (simp add: D CanonicalPartSetHeader_zero_def)
  have 2: "CanonicalPartSetHeader_Unmarshal_loop ?D (int (length ?F1))
        (?z\<lparr>psh_Total := psh_Total m\<rparr>) =
      CanonicalPartSetHeader_Unmarshal_loop ?D (int (length ?D))
        (?z\<lparr>psh_Total := psh_Total m, psh_Hash := psh_Hash m\<rparr>)"
    using PartSetHeader_loop_Hash [of ?F1 "psh_Hash m" "[]" "?z\<lparr>psh_Total := psh_Total m\<rparr>"] assms
    by (simp add: D CanonicalPartSetHeader_zero_def)
  show ?thesis
    unfolding CanonicalPartSetHeader_Unmarshal_def D 1 2 PartSetHeader_loop_end
    by (simp add: CanonicalPartSetHeader_zero_def)
qed



subsection \<open>CanonicalBlockID\<close>

lemma BlockID_loop_step:
  "iNdEx < int (length dAtA) \<Longrightarrow>
   CanonicalBlockID_Unmarshal_field dAtA iNdEx m = Inr (m', iNdEx') \<Longrightarrow>
   CanonicalBlockID_Unmarshal_loop dAtA iNdEx m =
     CanonicalBlockID_Unmarshal_loop dAtA iNdEx' m'"
  by (subst CanonicalBlockID_Unmarshal_loop.simps) simp

lemma BlockID_loop_end:
  "CanonicalBlockID_Unmarshal_loop dAtA (int (length dAtA)) m = Inr m"
  by (subst CanonicalBlockID_Unmarshal_loop.simps) simp

lemma BlockID_loop_Hash:
  assumes "int (length (pre @ omit_if (H = []) (bytes_field 0x0A H) @ rest)) \<le> MaxInt64"
    and "bid_Hash m = []"
  shows "CanonicalBlockID_Unmarshal_loop
           (pre @ omit_if (H = []) (bytes_field 0x0A H) @ rest) (int (length pre)) m =
         CanonicalBlockID_Unmarshal_loop
           (pre @ omit_if (H = []) (bytes_field 0x0A H) @ rest)
           (int (length (pre @ omit_if (H = []) (bytes_field 0x0A H))))
           (m\<lparr>bid_Hash := H\<rparr>)"
proof (cases "H = []")
  case True
  with assms(2) have "m\<lparr>bid_Hash := H\<rparr> = m" by (cases m) simp
  with True show ?thesis by (simp add: omit_if_def)
next
  case False
  from assms(1) False have len: "int (length (pre @ 0x0A # encode_varint (word_of_nat (length H)) @ H @ rest)) \<le> MaxInt64"
    by (simp add: omit_if_def bytes_field_def)
  let ?v = "encode_varint (word_of_nat (length (H)))"
  let ?D = "pre @ 0x0A # ?v @ H @ rest"
  have tag: "decode_varint ?D (int (length pre)) = Inr (0x0A :: 64 word, int (length pre) + 1)"
    using decode_varint_single [of "0x0A" pre "?v @ H @ rest", where ?'a = 64] len
    by simp
  have val: "decode_length ?D (int (length pre) + 1) =
      Inr (int (length pre) + 1 + int (length ?v),
           int (length pre) + 1 + int (length ?v) + int (length (H)))"
    using decode_length_at [of "pre @ [0x0A]" "H" rest] len by (simp add: ac_simps)
  have sl: "slice ?D (int (length pre) + 1 + int (length ?v))
      (int (length pre) + 1 + int (length ?v) + int (length (H))) = H"
    using slice_at [of "pre @ 0x0A # ?v" "H" rest] by (simp add: ac_simps)
  have "CanonicalBlockID_Unmarshal_field ?D (int (length pre)) m =
      Inr (m\<lparr>bid_Hash := H\<rparr>,
           int (length pre) + 1 + int (length ?v) + int (length (H)))"
    by (simp add: CanonicalBlockID_Unmarshal_field_def bind_def tag val sl tag_values)
  from BlockID_loop_step [OF _ this] False show ?thesis
    by (simp add: omit_if_def bytes_field_def ac_simps)
qed

lemma BlockID_loop_PartSetHeader:
  assumes "int (length (pre @ bytes_field 0x12 (PartSetHeader_layout h) @ rest)) \<le> MaxInt64"
    and "bid_PartSetHeader m = CanonicalPartSetHeader_zero"
  shows "CanonicalBlockID_Unmarshal_loop
           (pre @ bytes_field 0x12 (PartSetHeader_layout h) @ rest) (int (length pre)) m =
         CanonicalBlockID_Unmarshal_loop
           (pre @ bytes_field 0x12 (PartSetHeader_layout h) @ rest)
           (int (length (pre @ bytes_field 0x12 (PartSetHeader_layout h))))
           (m\<lparr>bid_PartSetHeader := h\<rparr>)"
proof -
  from assms(1) have len: "int (length (pre @ 0x12 # encode_varint (word_of_nat (length (PartSetHeader_layout h))) @ PartSetHeader_layout h @ rest)) \<le> MaxInt64"
    by (simp add: bytes_field_def)
  then have "int (length (PartSetHeader_layout h)) \<le> MaxInt64" by simp
  then have nested: "CanonicalPartSetHeader_Unmarshal CanonicalPartSetHeader_zero
      (PartSetHeader_layout h) = Inr h"
    by (rule PartSetHeader_roundtrip)
  let ?v = "encode_varint (word_of_nat (length (PartSetHeader_layout h)))"
  let ?D = "pre @ 0x12 # ?v @ PartSetHeader_layout h @ rest"
  have tag: "decode_varint ?D (int (length pre)) = Inr (0x12 :: 64 word, int (length pre) + 1)"
    using decode_varint_single [of "0x12" pre "?v @ PartSetHeader_layout h @ rest", where ?'a = 64] len
    by simp
  have val: "decode_length ?D (int (length pre) + 1) =
      Inr (int (length pre) + 1 + int (length ?v),
           int (length pre) + 1 + int (length ?v) + int (length (PartSetHeader_layout h)))"
    using decode_length_at [of "pre @ [0x12]" "PartSetHeader_layout h" rest] len by (simp add: ac_simps)
  have sl: "slice ?D (int (length pre) + 1 + int (length ?v))
      (int (length pre) + 1 + int (length ?v) + int (length (PartSetHeader_layout h))) = PartSetHeader_layout h"
    using slice_at [of "pre @ 0x12 # ?v" "PartSetHeader_layout h" rest] by (simp add: ac_simps)
  have "CanonicalBlockID_Unmarshal_field ?D (int (length pre)) m =
      Inr (m\<lparr>bid_PartSetHeader := h\<rparr>,
           int (length pre) + 1 + int (length ?v) + int (length (PartSetHeader_layout h)))"
    by (simp add: CanonicalBlockID_Unmarshal_field_def bind_def tag val sl tag_values nested assms(2))
  from BlockID_loop_step [OF _ this] show ?thesis
    by (simp add: bytes_field_def ac_simps)
qed

lemma BlockID_roundtrip:
  assumes "int (length (BlockID_layout m)) \<le> MaxInt64"
  shows "CanonicalBlockID_Unmarshal CanonicalBlockID_zero (BlockID_layout m) = Inr m"
proof -
  let ?F1 = "omit_if (bid_Hash m = []) (bytes_field 0x0A (bid_Hash m))"
  let ?F2 = "bytes_field 0x12 (PartSetHeader_layout (bid_PartSetHeader m))"
  let ?D = "?F1 @ ?F2"
  let ?z = "CanonicalBlockID_zero"
  have D: "BlockID_layout m = ?D" by (simp add: BlockID_layout_def)
  have 1: "CanonicalBlockID_Unmarshal_loop ?D 0 ?z =
      CanonicalBlockID_Unmarshal_loop ?D (int (length ?F1)) (?z\<lparr>bid_Hash := bid_Hash m\<rparr>)"
    using BlockID_loop_Hash [of "[]" "bid_Hash m" ?F2 ?z] assms
    by (simp add: D CanonicalBlockID_zero_def)
  have 2: "CanonicalBlockID_Unmarshal_loop ?D (int (length ?F1))
        (?z\<lparr>bid_Hash := bid_Hash m\<rparr>) =
      CanonicalBlockID_Unmarshal_loop ?D (int (length ?D))
        (?z\<lparr>bid_Hash := bid_Hash m, bid_PartSetHeader := bid_PartSetHeader m\<rparr>)"
    using BlockID_loop_PartSetHeader [of ?F1 "bid_PartSetHeader m" "[]"
        "?z\<lparr>bid_Hash := bid_Hash m\<rparr>"] assms
    by (simp add: D CanonicalBlockID_zero_def)
  show ?thesis
    unfolding CanonicalBlockID_Unmarshal_def D 1 2 BlockID_loop_end
    by (simp add: CanonicalBlockID_zero_def)
qed



subsection \<open>CanonicalProposal\<close>

lemma Proposal_loop_step:
  "iNdEx < int (length dAtA) \<Longrightarrow>
   CanonicalProposal_Unmarshal_field E dAtA iNdEx m = Inr (m', iNdEx') \<Longrightarrow>
   CanonicalProposal_Unmarshal_loop E dAtA iNdEx m =
     CanonicalProposal_Unmarshal_loop E dAtA iNdEx' m'"
  by (subst CanonicalProposal_Unmarshal_loop.simps) simp

lemma Proposal_loop_end:
  "CanonicalProposal_Unmarshal_loop E dAtA (int (length dAtA)) m = Inr m"
  by (subst CanonicalProposal_Unmarshal_loop.simps) simp

lemma Proposal_loop_Type:
  assumes "int (length (pre @ omit_if (T = 0) (varint_field 0x08 (scast T)) @ rest)) \<le> MaxInt64"
    and "prop_Type m = 0"
  shows "CanonicalProposal_Unmarshal_loop E
           (pre @ omit_if (T = 0) (varint_field 0x08 (scast T)) @ rest) (int (length pre)) m =
         CanonicalProposal_Unmarshal_loop E
           (pre @ omit_if (T = 0) (varint_field 0x08 (scast T)) @ rest)
           (int (length (pre @ omit_if (T = 0) (varint_field 0x08 (scast T)))))
           (m\<lparr>prop_Type := T\<rparr>)"
proof (cases "T = 0")
  case True
  with assms(2) have "m\<lparr>prop_Type := T\<rparr> = m" by (cases m) simp
  with True show ?thesis by (simp add: omit_if_def)
next
  case False
  let ?v = "encode_varint (scast T)"
  let ?D = "pre @ 0x08 # ?v @ rest"
  from assms(1) False have len: "int (length ?D) \<le> MaxInt64"
    by (simp add: omit_if_def varint_field_def)
  have tag: "decode_varint ?D (int (length pre)) = Inr (0x08 :: 64 word, int (length pre) + 1)"
    using decode_varint_single [of "0x08" pre "?v @ rest", where ?'a = 64] len by simp
  have val: "decode_varint ?D (int (length pre) + 1) =
      Inr (T, int (length pre) + 1 + int (length ?v))"
    using decode_varint_at [of "pre @ [0x08]" "scast T" rest, where ?'a = 32] len
    by (simp add: ucast_scast_32 ac_simps)
  have "CanonicalProposal_Unmarshal_field E ?D (int (length pre)) m =
      Inr (m\<lparr>prop_Type := T\<rparr>, int (length pre) + 1 + int (length ?v))"
    by (simp add: CanonicalProposal_Unmarshal_field_def bind_def tag val tag_values)
  from Proposal_loop_step [OF _ this] False show ?thesis
    by (simp add: omit_if_def varint_field_def ac_simps)
qed

lemma Proposal_loop_Height:
  assumes "int (length (pre @ omit_if (H = 0) (fixed64_field 0x11 H) @ rest)) \<le> MaxInt64"
    and "prop_Height m = 0"
  shows "CanonicalProposal_Unmarshal_loop E
           (pre @ omit_if (H = 0) (fixed64_field 0x11 H) @ rest) (int (length pre)) m =
         CanonicalProposal_Unmarshal_loop E
           (pre @ omit_if (H = 0) (fixed64_field 0x11 H) @ rest)
           (int (length (pre @ omit_if (H = 0) (fixed64_field 0x11 H))))
           (m\<lparr>prop_Height := H\<rparr>)"
proof (cases "H = 0")
  case True
  with assms(2) have "m\<lparr>prop_Height := H\<rparr> = m" by (cases m) simp
  with True show ?thesis by (simp add: omit_if_def)
next
  case False
  let ?D = "pre @ 0x11 # encode_fixed64 H @ rest"
  from assms(1) False have len: "int (length ?D) \<le> MaxInt64"
    by (simp add: omit_if_def fixed64_field_def)
  have tag: "decode_varint ?D (int (length pre)) = Inr (0x11 :: 64 word, int (length pre) + 1)"
    using decode_varint_single [of "0x11" pre "encode_fixed64 H @ rest", where ?'a = 64] len
    by simp
  have val: "decode_fixed64 ?D (int (length pre) + 1) = Inr (H, int (length pre) + 1 + 8)"
    using decode_fixed64_at [of "pre @ [0x11]" "H" rest] by (simp add: ac_simps)
  have "CanonicalProposal_Unmarshal_field E ?D (int (length pre)) m =
      Inr (m\<lparr>prop_Height := H\<rparr>, int (length pre) + 1 + 8)"
    by (simp add: CanonicalProposal_Unmarshal_field_def bind_def tag val tag_values)
  from Proposal_loop_step [OF _ this] False show ?thesis
    by (simp add: omit_if_def fixed64_field_def length_encode_fixed64 ac_simps)
qed

lemma Proposal_loop_Round:
  assumes "int (length (pre @ omit_if (R = 0) (fixed64_field 0x19 R) @ rest)) \<le> MaxInt64"
    and "prop_Round m = 0"
  shows "CanonicalProposal_Unmarshal_loop E
           (pre @ omit_if (R = 0) (fixed64_field 0x19 R) @ rest) (int (length pre)) m =
         CanonicalProposal_Unmarshal_loop E
           (pre @ omit_if (R = 0) (fixed64_field 0x19 R) @ rest)
           (int (length (pre @ omit_if (R = 0) (fixed64_field 0x19 R))))
           (m\<lparr>prop_Round := R\<rparr>)"
proof (cases "R = 0")
  case True
  with assms(2) have "m\<lparr>prop_Round := R\<rparr> = m" by (cases m) simp
  with True show ?thesis by (simp add: omit_if_def)
next
  case False
  let ?D = "pre @ 0x19 # encode_fixed64 R @ rest"
  from assms(1) False have len: "int (length ?D) \<le> MaxInt64"
    by (simp add: omit_if_def fixed64_field_def)
  have tag: "decode_varint ?D (int (length pre)) = Inr (0x19 :: 64 word, int (length pre) + 1)"
    using decode_varint_single [of "0x19" pre "encode_fixed64 R @ rest", where ?'a = 64] len
    by simp
  have val: "decode_fixed64 ?D (int (length pre) + 1) = Inr (R, int (length pre) + 1 + 8)"
    using decode_fixed64_at [of "pre @ [0x19]" "R" rest] by (simp add: ac_simps)
  have "CanonicalProposal_Unmarshal_field E ?D (int (length pre)) m =
      Inr (m\<lparr>prop_Round := R\<rparr>, int (length pre) + 1 + 8)"
    by (simp add: CanonicalProposal_Unmarshal_field_def bind_def tag val tag_values)
  from Proposal_loop_step [OF _ this] False show ?thesis
    by (simp add: omit_if_def fixed64_field_def length_encode_fixed64 ac_simps)
qed

lemma Proposal_loop_POLRound:
  assumes "int (length (pre @ omit_if (P = 0) (varint_field 0x20 (P)) @ rest)) \<le> MaxInt64"
    and "prop_POLRound m = 0"
  shows "CanonicalProposal_Unmarshal_loop E
           (pre @ omit_if (P = 0) (varint_field 0x20 (P)) @ rest) (int (length pre)) m =
         CanonicalProposal_Unmarshal_loop E
           (pre @ omit_if (P = 0) (varint_field 0x20 (P)) @ rest)
           (int (length (pre @ omit_if (P = 0) (varint_field 0x20 (P)))))
           (m\<lparr>prop_POLRound := P\<rparr>)"
proof (cases "P = 0")
  case True
  with assms(2) have "m\<lparr>prop_POLRound := P\<rparr> = m" by (cases m) simp
  with True show ?thesis by (simp add: omit_if_def)
next
  case False
  let ?v = "encode_varint (P)"
  let ?D = "pre @ 0x20 # ?v @ rest"
  from assms(1) False have len: "int (length ?D) \<le> MaxInt64"
    by (simp add: omit_if_def varint_field_def)
  have tag: "decode_varint ?D (int (length pre)) = Inr (0x20 :: 64 word, int (length pre) + 1)"
    using decode_varint_single [of "0x20" pre "?v @ rest", where ?'a = 64] len by simp
  have val: "decode_varint ?D (int (length pre) + 1) =
      Inr (P, int (length pre) + 1 + int (length ?v))"
    using decode_varint_at [of "pre @ [0x20]" "P" rest, where ?'a = 64] len
    by (simp add: ucast_id ac_simps)
  have "CanonicalProposal_Unmarshal_field E ?D (int (length pre)) m =
      Inr (m\<lparr>prop_POLRound := P\<rparr>, int (length pre) + 1 + int (length ?v))"
    by (simp add: CanonicalProposal_Unmarshal_field_def bind_def tag val tag_values)
  from Proposal_loop_step [OF _ this] False show ?thesis
    by (simp add: omit_if_def varint_field_def ac_simps)
qed

lemma Proposal_loop_BlockID:
  assumes "int (length (pre @ (case B of None \<Rightarrow> [] | Some b \<Rightarrow> bytes_field 0x2A (BlockID_layout b)) @ rest)) \<le> MaxInt64"
    and "prop_BlockID m = None"
  shows "CanonicalProposal_Unmarshal_loop E
           (pre @ (case B of None \<Rightarrow> [] | Some b \<Rightarrow> bytes_field 0x2A (BlockID_layout b)) @ rest) (int (length pre)) m =
         CanonicalProposal_Unmarshal_loop E
           (pre @ (case B of None \<Rightarrow> [] | Some b \<Rightarrow> bytes_field 0x2A (BlockID_layout b)) @ rest)
           (int (length (pre @ (case B of None \<Rightarrow> [] | Some b \<Rightarrow> bytes_field 0x2A (BlockID_layout b)))))
           (m\<lparr>prop_BlockID := B\<rparr>)"
proof (cases B)
  case None
  with assms(2) have "m\<lparr>prop_BlockID := B\<rparr> = m" by (cases m) simp
  with None show ?thesis by simp
next
  case (Some b)
  from assms(1) Some have len: "int (length (pre @ 0x2A # encode_varint (word_of_nat (length (BlockID_layout b))) @ BlockID_layout b @ rest)) \<le> MaxInt64"
    by (simp add: bytes_field_def)
  then have "int (length (BlockID_layout b)) \<le> MaxInt64" by simp
  then have nested: "CanonicalBlockID_Unmarshal CanonicalBlockID_zero (BlockID_layout b) = Inr b"
    by (rule BlockID_roundtrip)
  let ?v = "encode_varint (word_of_nat (length (BlockID_layout b)))"
  let ?D = "pre @ 0x2A # ?v @ BlockID_layout b @ rest"
  have tag: "decode_varint ?D (int (length pre)) = Inr (0x2A :: 64 word, int (length pre) + 1)"
    using decode_varint_single [of "0x2A" pre "?v @ BlockID_layout b @ rest", where ?'a = 64] len
    by simp
  have val: "decode_length ?D (int (length pre) + 1) =
      Inr (int (length pre) + 1 + int (length ?v),
           int (length pre) + 1 + int (length ?v) + int (length (BlockID_layout b)))"
    using decode_length_at [of "pre @ [0x2A]" "BlockID_layout b" rest] len by (simp add: ac_simps)
  have sl: "slice ?D (int (length pre) + 1 + int (length ?v))
      (int (length pre) + 1 + int (length ?v) + int (length (BlockID_layout b))) = BlockID_layout b"
    using slice_at [of "pre @ 0x2A # ?v" "BlockID_layout b" rest] by (simp add: ac_simps)
  have "CanonicalProposal_Unmarshal_field E ?D (int (length pre)) m =
      Inr (m\<lparr>prop_BlockID := Some b\<rparr>,
           int (length pre) + 1 + int (length ?v) + int (length (BlockID_layout b)))"
    by (simp add: CanonicalProposal_Unmarshal_field_def bind_def tag val sl tag_values nested assms(2))
  from Proposal_loop_step [OF _ this] Some show ?thesis
    by (simp add: bytes_field_def ac_simps)
qed

lemma Proposal_loop_Timestamp:
  assumes "int (length (pre @ bytes_field 0x32 tb @ rest)) \<le> MaxInt64"
    and "StdTimeUnmarshal E tb = Inr t"
  shows "CanonicalProposal_Unmarshal_loop E
           (pre @ bytes_field 0x32 tb @ rest) (int (length pre)) m =
         CanonicalProposal_Unmarshal_loop E
           (pre @ bytes_field 0x32 tb @ rest)
           (int (length (pre @ bytes_field 0x32 tb)))
           (m\<lparr>prop_Timestamp := t\<rparr>)"
proof -
  from assms(1) have len: "int (length (pre @ 0x32 # encode_varint (word_of_nat (length tb)) @ tb @ rest)) \<le> MaxInt64"
    by (simp add: bytes_field_def)
  let ?v = "encode_varint (word_of_nat (length (tb)))"
  let ?D = "pre @ 0x32 # ?v @ tb @ rest"
  have tag: "decode_varint ?D (int (length pre)) = Inr (0x32 :: 64 word, int (length pre) + 1)"
    using decode_varint_single [of "0x32" pre "?v @ tb @ rest", where ?'a = 64] len
    by simp
  have val: "decode_length ?D (int (length pre) + 1) =
      Inr (int (length pre) + 1 + int (length ?v),
           int (length pre) + 1 + int (length ?v) + int (length (tb)))"
    using decode_length_at [of "pre @ [0x32]" "tb" rest] len by (simp add: ac_simps)
  have sl: "slice ?D (int (length pre) + 1 + int (length ?v))
      (int (length pre) + 1 + int (length ?v) + int (length (tb))) = tb"
    using slice_at [of "pre @ 0x32 # ?v" "tb" rest] by (simp add: ac_simps)
  have "CanonicalProposal_Unmarshal_field E ?D (int (length pre)) m =
      Inr (m\<lparr>prop_Timestamp := t\<rparr>,
           int (length pre) + 1 + int (length ?v) + int (length (tb)))"
    by (simp add: CanonicalProposal_Unmarshal_field_def bind_def tag val sl tag_values assms(2))
  from Proposal_loop_step [OF _ this] show ?thesis
    by (simp add: bytes_field_def ac_simps)
qed

lemma Proposal_loop_ChainID:
  assumes "int (length (pre @ omit_if (C = []) (bytes_field 0x3A C) @ rest)) \<le> MaxInt64"
    and "prop_ChainID m = []"
  shows "CanonicalProposal_Unmarshal_loop E
           (pre @ omit_if (C = []) (bytes_field 0x3A C) @ rest) (int (length pre)) m =
         CanonicalProposal_Unmarshal_loop E
           (pre @ omit_if (C = []) (bytes_field 0x3A C) @ rest)
           (int (length (pre @ omit_if (C = []) (bytes_field 0x3A C))))
           (m\<lparr>prop_ChainID := C\<rparr>)"
proof (cases "C = []")
  case True
  with assms(2) have "m\<lparr>prop_ChainID := C\<rparr> = m" by (cases m) simp
  with True show ?thesis by (simp add: omit_if_def)
next
  case False
  from assms(1) False have len: "int (length (pre @ 0x3A # encode_varint (word_of_nat (length C)) @ C @ rest)) \<le> MaxInt64"
    by (simp add: omit_if_def bytes_field_def)
  let ?v = "encode_varint (word_of_nat (length (C)))"
  let ?D = "pre @ 0x3A # ?v @ C @ rest"
  have tag: "decode_varint ?D (int (length pre)) = Inr (0x3A :: 64 word, int (length pre) + 1)"
    using decode_varint_single [of "0x3A" pre "?v @ C @ rest", where ?'a = 64] len
    by simp
  have val: "decode_length ?D (int (length pre) + 1) =
      Inr (int (length pre) + 1 + int (length ?v),
           int (length pre) + 1 + int (length ?v) + int (length (C)))"
    using decode_length_at [of "pre @ [0x3A]" "C" rest] len by (simp add: ac_simps)
  have sl: "slice ?D (int (length pre) + 1 + int (length ?v))
      (int (length pre) + 1 + int (length ?v) + int (length (C))) = C"
    using slice_at [of "pre @ 0x3A # ?v" "C" rest] by (simp add: ac_simps)
  have "CanonicalProposal_Unmarshal_field E ?D (int (length pre)) m =
      Inr (m\<lparr>prop_ChainID := C\<rparr>,
           int (length pre) + 1 + int (length ?v) + int (length (C)))"
    by (simp add: CanonicalProposal_Unmarshal_field_def bind_def tag val sl tag_values)
  from Proposal_loop_step [OF _ this] False show ?thesis
    by (simp add: omit_if_def bytes_field_def ac_simps)
qed

lemma Proposal_roundtrip:
  assumes "int (length (Proposal_layout tb m)) \<le> MaxInt64"
    and "StdTimeUnmarshal E tb = Inr (prop_Timestamp m)"
  shows "CanonicalProposal_Unmarshal E (CanonicalProposal_zero t0) (Proposal_layout tb m) = Inr m"
proof -
  let ?F1 = "omit_if (prop_Type m = 0) (varint_field 0x08 (scast (prop_Type m)))"
  let ?F2 = "omit_if (prop_Height m = 0) (fixed64_field 0x11 (prop_Height m))"
  let ?F3 = "omit_if (prop_Round m = 0) (fixed64_field 0x19 (prop_Round m))"
  let ?F4 = "omit_if (prop_POLRound m = 0) (varint_field 0x20 (prop_POLRound m))"
  let ?F5 = "case prop_BlockID m of None \<Rightarrow> []
             | Some b \<Rightarrow> bytes_field 0x2A (BlockID_layout b)"
  let ?F6 = "bytes_field 0x32 tb"
  let ?F7 = "omit_if (prop_ChainID m = []) (bytes_field 0x3A (prop_ChainID m))"
  let ?D = "?F1 @ ?F2 @ ?F3 @ ?F4 @ ?F5 @ ?F6 @ ?F7"
  let ?m0 = "CanonicalProposal_zero t0 :: 'a CanonicalProposal"
  let ?m1 = "?m0\<lparr>prop_Type := prop_Type m\<rparr>"
  let ?m2 = "?m1\<lparr>prop_Height := prop_Height m\<rparr>"
  let ?m3 = "?m2\<lparr>prop_Round := prop_Round m\<rparr>"
  let ?m4 = "?m3\<lparr>prop_POLRound := prop_POLRound m\<rparr>"
  let ?m5 = "?m4\<lparr>prop_BlockID := prop_BlockID m\<rparr>"
  let ?m6 = "?m5\<lparr>prop_Timestamp := prop_Timestamp m\<rparr>"
  let ?m7 = "?m6\<lparr>prop_ChainID := prop_ChainID m\<rparr>"
  let ?loop = "CanonicalProposal_Unmarshal_loop E ?D"
  have D: "Proposal_layout tb m = ?D"
    by (simp add: Proposal_layout_def)
  note len = assms(1) [unfolded D]
  note z = CanonicalProposal_zero_def
  have s1: "?loop 0 ?m0 = ?loop (int (length ?F1)) ?m1"
    using Proposal_loop_Type [where pre = "[]" and T = "prop_Type m"
        and rest = "?F2 @ ?F3 @ ?F4 @ ?F5 @ ?F6 @ ?F7" and m = ?m0 and E = E] len
    by (simp add: z)
  have s2: "?loop (int (length ?F1)) ?m1 = ?loop (int (length (?F1 @ ?F2))) ?m2"
    using Proposal_loop_Height [where pre = "?F1" and H = "prop_Height m"
        and rest = "?F3 @ ?F4 @ ?F5 @ ?F6 @ ?F7" and m = ?m1 and E = E] len
    by (simp add: z)
  have s3: "?loop (int (length (?F1 @ ?F2))) ?m2 = ?loop (int (length (?F1 @ ?F2 @ ?F3))) ?m3"
    using Proposal_loop_Round [where pre = "?F1 @ ?F2" and R = "prop_Round m"
        and rest = "?F4 @ ?F5 @ ?F6 @ ?F7" and m = ?m2 and E = E] len
    by (simp add: z)
  have s4: "?loop (int (length (?F1 @ ?F2 @ ?F3))) ?m3 =
      ?loop (int (length (?F1 @ ?F2 @ ?F3 @ ?F4))) ?m4"
    using Proposal_loop_POLRound [where pre = "?F1 @ ?F2 @ ?F3" and P = "prop_POLRound m"
        and rest = "?F5 @ ?F6 @ ?F7" and m = ?m3 and E = E] len
    by (simp add: z)
  have s5: "?loop (int (length (?F1 @ ?F2 @ ?F3 @ ?F4))) ?m4 =
      ?loop (int (length (?F1 @ ?F2 @ ?F3 @ ?F4 @ ?F5))) ?m5"
    using Proposal_loop_BlockID [where pre = "?F1 @ ?F2 @ ?F3 @ ?F4" and B = "prop_BlockID m"
        and rest = "?F6 @ ?F7" and m = ?m4 and E = E] len
    by (simp add: z)
  have s6: "?loop (int (length (?F1 @ ?F2 @ ?F3 @ ?F4 @ ?F5))) ?m5 =
      ?loop (int (length (?F1 @ ?F2 @ ?F3 @ ?F4 @ ?F5 @ ?F6))) ?m6"
    using Proposal_loop_Timestamp [where pre = "?F1 @ ?F2 @ ?F3 @ ?F4 @ ?F5" and tb = tb
        and rest = "?F7" and m = ?m5 and E = E and t = "prop_Timestamp m"] len assms(2)
    by (simp add: z)
  have s7: "?loop (int (length (?F1 @ ?F2 @ ?F3 @ ?F4 @ ?F5 @ ?F6))) ?m6 =
      ?loop (int (length ?D)) ?m7"
    using Proposal_loop_ChainID [where pre = "?F1 @ ?F2 @ ?F3 @ ?F4 @ ?F5 @ ?F6"
        and C = "prop_ChainID m" and rest = "[]" and m = ?m6 and E = E] len
    by (simp add: z)
  have fin: "?m7 = m" by (simp add: z)
  have "?loop 0 ?m0 = Inr m"
    unfolding s1 s2 s3 s4 s5 s6 s7 fin by (rule Proposal_loop_end)
  then show ?thesis
    unfolding CanonicalProposal_Unmarshal_def D .
qed



subsection \<open>CanonicalVote\<close>

lemma Vote_loop_step:
  "iNdEx < int (length dAtA) \<Longrightarrow>
   CanonicalVote_Unmarshal_field E dAtA iNdEx m = Inr (m', iNdEx') \<Longrightarrow>
   CanonicalVote_Unmarshal_loop E dAtA iNdEx m =
     CanonicalVote_Unmarshal_loop E dAtA iNdEx' m'"
  by (subst CanonicalVote_Unmarshal_loop.simps) simp

lemma Vote_loop_end:
  "CanonicalVote_Unmarshal_loop E dAtA (int (length dAtA)) m = Inr m"
  by (subst CanonicalVote_Unmarshal_loop.simps) simp

lemma Vote_loop_Type:
  assumes "int (length (pre @ omit_if (T = 0) (varint_field 0x08 (scast T)) @ rest)) \<le> MaxInt64"
    and "vote_Type m = 0"
  shows "CanonicalVote_Unmarshal_loop E
           (pre @ omit_if (T = 0) (varint_field 0x08 (scast T)) @ rest) (int (length pre)) m =
         CanonicalVote_Unmarshal_loop E
           (pre @ omit_if (T = 0) (varint_field 0x08 (scast T)) @ rest)
           (int (length (pre @ omit_if (T = 0) (varint_field 0x08 (scast T)))))
           (m\<lparr>vote_Type := T\<rparr>)"
proof (cases "T = 0")
  case True
  with assms(2) have "m\<lparr>vote_Type := T\<rparr> = m" by (cases m) simp
  with True show ?thesis by (simp add: omit_if_def)
next
  case False
  let ?v = "encode_varint (scast T)"
  let ?D = "pre @ 0x08 # ?v @ rest"
  from assms(1) False have len: "int (length ?D) \<le> MaxInt64"
    by (simp add: omit_if_def varint_field_def)
  have tag: "decode_varint ?D (int (length pre)) = Inr (0x08 :: 64 word, int (length pre) + 1)"
    using decode_varint_single [of "0x08" pre "?v @ rest", where ?'a = 64] len by simp
  have val: "decode_varint ?D (int (length pre) + 1) =
      Inr (T, int (length pre) + 1 + int (length ?v))"
    using decode_varint_at [of "pre @ [0x08]" "scast T" rest, where ?'a = 32] len
    by (simp add: ucast_scast_32 ac_simps)
  have "CanonicalVote_Unmarshal_field E ?D (int (length pre)) m =
      Inr (m\<lparr>vote_Type := T\<rparr>, int (length pre) + 1 + int (length ?v))"
    by (simp add: CanonicalVote_Unmarshal_field_def bind_def tag val tag_values)
  from Vote_loop_step [OF _ this] False show ?thesis
    by (simp add: omit_if_def varint_field_def ac_simps)
qed

lemma Vote_loop_Height:
  assumes "int (length (pre @ omit_if (H = 0) (fixed64_field 0x11 H) @ rest)) \<le> MaxInt64"
    and "vote_Height m = 0"
  shows "CanonicalVote_Unmarshal_loop E
           (pre @ omit_if (H = 0) (fixed64_field 0x11 H) @ rest) (int (length pre)) m =
         CanonicalVote_Unmarshal_loop E
           (pre @ omit_if (H = 0) (fixed64_field 0x11 H) @ rest)
           (int (length (pre @ omit_if (H = 0) (fixed64_field 0x11 H))))
           (m\<lparr>vote_Height := H\<rparr>)"
proof (cases "H = 0")
  case True
  with assms(2) have "m\<lparr>vote_Height := H\<rparr> = m" by (cases m) simp
  with True show ?thesis by (simp add: omit_if_def)
next
  case False
  let ?D = "pre @ 0x11 # encode_fixed64 H @ rest"
  from assms(1) False have len: "int (length ?D) \<le> MaxInt64"
    by (simp add: omit_if_def fixed64_field_def)
  have tag: "decode_varint ?D (int (length pre)) = Inr (0x11 :: 64 word, int (length pre) + 1)"
    using decode_varint_single [of "0x11" pre "encode_fixed64 H @ rest", where ?'a = 64] len
    by simp
  have val: "decode_fixed64 ?D (int (length pre) + 1) = Inr (H, int (length pre) + 1 + 8)"
    using decode_fixed64_at [of "pre @ [0x11]" "H" rest] by (simp add: ac_simps)
  have "CanonicalVote_Unmarshal_field E ?D (int (length pre)) m =
      Inr (m\<lparr>vote_Height := H\<rparr>, int (length pre) + 1 + 8)"
    by (simp add: CanonicalVote_Unmarshal_field_def bind_def tag val tag_values)
  from Vote_loop_step [OF _ this] False show ?thesis
    by (simp add: omit_if_def fixed64_field_def length_encode_fixed64 ac_simps)
qed

lemma Vote_loop_Round:
  assumes "int (length (pre @ omit_if (R = 0) (fixed64_field 0x19 R) @ rest)) \<le> MaxInt64"
    and "vote_Round m = 0"
  shows "CanonicalVote_Unmarshal_loop E
           (pre @ omit_if (R = 0) (fixed64_field 0x19 R) @ rest) (int (length pre)) m =
         CanonicalVote_Unmarshal_loop E
           (pre @ omit_if (R = 0) (fixed64_field 0x19 R) @ rest)
           (int (length (pre @ omit_if (R = 0) (fixed64_field 0x19 R))))
           (m\<lparr>vote_Round := R\<rparr>)"
proof (cases "R = 0")
  case True
  with assms(2) have "m\<lparr>vote_Round := R\<rparr> = m" by (cases m) simp
  with True show ?thesis by (simp add: omit_if_def)
next
  case False
  let ?D = "pre @ 0x19 # encode_fixed64 R @ rest"
  from assms(1) False have len: "int (length ?D) \<le> MaxInt64"
    by (simp add: omit_if_def fixed64_field_def)
  have tag: "decode_varint ?D (int (length pre)) = Inr (0x19 :: 64 word, int (length pre) + 1)"
    using decode_varint_single [of "0x19" pre "encode_fixed64 R @ rest", where ?'a = 64] len
    by simp
  have val: "decode_fixed64 ?D (int (length pre) + 1) = Inr (R, int (length pre) + 1 + 8)"
    using decode_fixed64_at [of "pre @ [0x19]" "R" rest] by (simp add: ac_simps)
  have "CanonicalVote_Unmarshal_field E ?D (int (length pre)) m =
      Inr (m\<lparr>vote_Round := R\<rparr>, int (length pre) + 1 + 8)"
    by (simp add: CanonicalVote_Unmarshal_field_def bind_def tag val tag_values)
  from Vote_loop_step [OF _ this] False show ?thesis
    by (simp add: omit_if_def fixed64_field_def length_encode_fixed64 ac_simps)
qed

lemma Vote_loop_BlockID:
  assumes "int (length (pre @ (case B of None \<Rightarrow> [] | Some b \<Rightarrow> bytes_field 0x22 (BlockID_layout b)) @ rest)) \<le> MaxInt64"
    and "vote_BlockID m = None"
  shows "CanonicalVote_Unmarshal_loop E
           (pre @ (case B of None \<Rightarrow> [] | Some b \<Rightarrow> bytes_field 0x22 (BlockID_layout b)) @ rest) (int (length pre)) m =
         CanonicalVote_Unmarshal_loop E
           (pre @ (case B of None \<Rightarrow> [] | Some b \<Rightarrow> bytes_field 0x22 (BlockID_layout b)) @ rest)
           (int (length (pre @ (case B of None \<Rightarrow> [] | Some b \<Rightarrow> bytes_field 0x22 (BlockID_layout b)))))
           (m\<lparr>vote_BlockID := B\<rparr>)"
proof (cases B)
  case None
  with assms(2) have "m\<lparr>vote_BlockID := B\<rparr> = m" by (cases m) simp
  with None show ?thesis by simp
next
  case (Some b)
  from assms(1) Some have len: "int (length (pre @ 0x22 # encode_varint (word_of_nat (length (BlockID_layout b))) @ BlockID_layout b @ rest)) \<le> MaxInt64"
    by (simp add: bytes_field_def)
  then have "int (length (BlockID_layout b)) \<le> MaxInt64" by simp
  then have nested: "CanonicalBlockID_Unmarshal CanonicalBlockID_zero (BlockID_layout b) = Inr b"
    by (rule BlockID_roundtrip)
  let ?v = "encode_varint (word_of_nat (length (BlockID_layout b)))"
  let ?D = "pre @ 0x22 # ?v @ BlockID_layout b @ rest"
  have tag: "decode_varint ?D (int (length pre)) = Inr (0x22 :: 64 word, int (length pre) + 1)"
    using decode_varint_single [of "0x22" pre "?v @ BlockID_layout b @ rest", where ?'a = 64] len
    by simp
  have val: "decode_length ?D (int (length pre) + 1) =
      Inr (int (length pre) + 1 + int (length ?v),
           int (length pre) + 1 + int (length ?v) + int (length (BlockID_layout b)))"
    using decode_length_at [of "pre @ [0x22]" "BlockID_layout b" rest] len by (simp add: ac_simps)
  have sl: "slice ?D (int (length pre) + 1 + int (length ?v))
      (int (length pre) + 1 + int (length ?v) + int (length (BlockID_layout b))) = BlockID_layout b"
    using slice_at [of "pre @ 0x22 # ?v" "BlockID_layout b" rest] by (simp add: ac_simps)
  have "CanonicalVote_Unmarshal_field E ?D (int (length pre)) m =
      Inr (m\<lparr>vote_BlockID := Some b\<rparr>,
           int (length pre) + 1 + int (length ?v) + int (length (BlockID_layout b)))"
    by (simp add: CanonicalVote_Unmarshal_field_def bind_def tag val sl tag_values nested assms(2))
  from Vote_loop_step [OF _ this] Some show ?thesis
    by (simp add: bytes_field_def ac_simps)
qed

lemma Vote_loop_Timestamp:
  assumes "int (length (pre @ bytes_field 0x2A tb @ rest)) \<le> MaxInt64"
    and "StdTimeUnmarshal E tb = Inr t"
  shows "CanonicalVote_Unmarshal_loop E
           (pre @ bytes_field 0x2A tb @ rest) (int (length pre)) m =
         CanonicalVote_Unmarshal_loop E
           (pre @ bytes_field 0x2A tb @ rest)
           (int (length (pre @ bytes_field 0x2A tb)))
           (m\<lparr>vote_Timestamp := t\<rparr>)"
proof -
  from assms(1) have len: "int (length (pre @ 0x2A # encode_varint (word_of_nat (length tb)) @ tb @ rest)) \<le> MaxInt64"
    by (simp add: bytes_field_def)
  let ?v = "encode_varint (word_of_nat (length (tb)))"
  let ?D = "pre @ 0x2A # ?v @ tb @ rest"
  have tag: "decode_varint ?D (int (length pre)) = Inr (0x2A :: 64 word, int (length pre) + 1)"
    using decode_varint_single [of "0x2A" pre "?v @ tb @ rest", where ?'a = 64] len
    by simp
  have val: "decode_length ?D (int (length pre) + 1) =
      Inr (int (length pre) + 1 + int (length ?v),
           int (length pre) + 1 + int (length ?v) + int (length (tb)))"
    using decode_length_at [of "pre @ [0x2A]" "tb" rest] len by (simp add: ac_simps)
  have sl: "slice ?D (int (length pre) + 1 + int (length ?v))
      (int (length pre) + 1 + int (length ?v) + int (length (tb))) = tb"
    using slice_at [of "pre @ 0x2A # ?v" "tb" rest] by (simp add: ac_simps)
  have "CanonicalVote_Unmarshal_field E ?D (int (length pre)) m =
      Inr (m\<lparr>vote_Timestamp := t\<rparr>,
           int (length pre) + 1 + int (length ?v) + int (length (tb)))"
    by (simp add: CanonicalVote_Unmarshal_field_def bind_def tag val sl tag_values assms(2))
  from Vote_loop_step [OF _ this] show ?thesis
    by (simp add: bytes_field_def ac_simps)
qed

lemma Vote_loop_ChainID:
  assumes "int (length (pre @ omit_if (C = []) (bytes_field 0x32 C) @ rest)) \<le> MaxInt64"
    and "vote_ChainID m = []"
  shows "CanonicalVote_Unmarshal_loop E
           (pre @ omit_if (C = []) (bytes_field 0x32 C) @ rest) (int (length pre)) m =
         CanonicalVote_Unmarshal_loop E
           (pre @ omit_if (C = []) (bytes_field 0x32 C) @ rest)
           (int (length (pre @ omit_if (C = []) (bytes_field 0x32 C))))
           (m\<lparr>vote_ChainID := C\<rparr>)"
proof (cases "C = []")
  case True
  with assms(2) have "m\<lparr>vote_ChainID := C\<rparr> = m" by (cases m) simp
  with True show ?thesis by (simp add: omit_if_def)
next
  case False
  from assms(1) False have len: "int (length (pre @ 0x32 # encode_varint (word_of_nat (length C)) @ C @ rest)) \<le> MaxInt64"
    by (simp add: omit_if_def bytes_field_def)
  let ?v = "encode_varint (word_of_nat (length (C)))"
  let ?D = "pre @ 0x32 # ?v @ C @ rest"
  have tag: "decode_varint ?D (int (length pre)) = Inr (0x32 :: 64 word, int (length pre) + 1)"
    using decode_varint_single [of "0x32" pre "?v @ C @ rest", where ?'a = 64] len
    by simp
  have val: "decode_length ?D (int (length pre) + 1) =
      Inr (int (length pre) + 1 + int (length ?v),
           int (length pre) + 1 + int (length ?v) + int (length (C)))"
    using decode_length_at [of "pre @ [0x32]" "C" rest] len by (simp add: ac_simps)
  have sl: "slice ?D (int (length pre) + 1 + int (length ?v))
      (int (length pre) + 1 + int (length ?v) + int (length (C))) = C"
    using slice_at [of "pre @ 0x32 # ?v" "C" rest] by (simp add: ac_simps)
  have "CanonicalVote_Unmarshal_field E ?D (int (length pre)) m =
      Inr (m\<lparr>vote_ChainID := C\<rparr>,
           int (length pre) + 1 + int (length ?v) + int (length (C)))"
    by (simp add: CanonicalVote_Unmarshal_field_def bind_def tag val sl tag_values)
  from Vote_loop_step [OF _ this] False show ?thesis
    by (simp add: omit_if_def bytes_field_def ac_simps)
qed

lemma Vote_loop_VoteExtension:
  assumes "int (length (pre @ (case ext of None \<Rightarrow> [] | Some xb \<Rightarrow> bytes_field 0x3A xb) @ rest)) \<le> MaxInt64"
    and "vote_VoteExtension m = None"
    and "case X of None \<Rightarrow> ext = None | Some x \<Rightarrow> \<exists>xb. ext = Some xb \<and> VoteExtension_Unmarshal E (VoteExtension_zero E) xb = Inr x"
  shows "CanonicalVote_Unmarshal_loop E
           (pre @ (case ext of None \<Rightarrow> [] | Some xb \<Rightarrow> bytes_field 0x3A xb) @ rest) (int (length pre)) m =
         CanonicalVote_Unmarshal_loop E
           (pre @ (case ext of None \<Rightarrow> [] | Some xb \<Rightarrow> bytes_field 0x3A xb) @ rest)
           (int (length (pre @ (case ext of None \<Rightarrow> [] | Some xb \<Rightarrow> bytes_field 0x3A xb))))
           (m\<lparr>vote_VoteExtension := X\<rparr>)"
proof (cases X)
  case None
  with assms(2) have "m\<lparr>vote_VoteExtension := X\<rparr> = m" by (cases m) simp
  with None assms(3) show ?thesis by simp
next
  case (Some x)
  with assms(3) obtain xb where xb: "ext = Some xb"
    and nested: "VoteExtension_Unmarshal E (VoteExtension_zero E) xb = Inr x" by auto
  from assms(1) xb have len: "int (length (pre @ 0x3A # encode_varint (word_of_nat (length xb)) @ xb @ rest)) \<le> MaxInt64"
    by (simp add: bytes_field_def)
  let ?v = "encode_varint (word_of_nat (length (xb)))"
  let ?D = "pre @ 0x3A # ?v @ xb @ rest"
  have tag: "decode_varint ?D (int (length pre)) = Inr (0x3A :: 64 word, int (length pre) + 1)"
    using decode_varint_single [of "0x3A" pre "?v @ xb @ rest", where ?'a = 64] len
    by simp
  have val: "decode_length ?D (int (length pre) + 1) =
      Inr (int (length pre) + 1 + int (length ?v),
           int (length pre) + 1 + int (length ?v) + int (length (xb)))"
    using decode_length_at [of "pre @ [0x3A]" "xb" rest] len by (simp add: ac_simps)
  have sl: "slice ?D (int (length pre) + 1 + int (length ?v))
      (int (length pre) + 1 + int (length ?v) + int (length (xb))) = xb"
    using slice_at [of "pre @ 0x3A # ?v" "xb" rest] by (simp add: ac_simps)
  have "CanonicalVote_Unmarshal_field E ?D (int (length pre)) m =
      Inr (m\<lparr>vote_VoteExtension := Some x\<rparr>,
           int (length pre) + 1 + int (length ?v) + int (length (xb)))"
    by (simp add: CanonicalVote_Unmarshal_field_def bind_def tag val sl tag_values nested assms(2))
  from Vote_loop_step [OF _ this] Some xb show ?thesis
    by (simp add: bytes_field_def ac_simps)
qed

lemma Vote_roundtrip:
  assumes "int (length (Vote_layout tb ext m)) \<le> MaxInt64"
    and "StdTimeUnmarshal E tb = Inr (vote_Timestamp m)"
    and "case vote_VoteExtension m of None \<Rightarrow> ext = None
         | Some x \<Rightarrow> \<exists>xb. ext = Some xb \<and>
             VoteExtension_Unmarshal E (VoteExtension_zero E) xb = Inr x"
  shows "CanonicalVote_Unmarshal E (CanonicalVote_zero t0) (Vote_layout tb ext m) = Inr m"
proof -
  let ?F1 = "omit_if (vote_Type m = 0) (varint_field 0x08 (scast (vote_Type m)))"
  let ?F2 = "omit_if (vote_Height m = 0) (fixed64_field 0x11 (vote_Height m))"
  let ?F3 = "omit_if (vote_Round m = 0) (fixed64_field 0x19 (vote_Round m))"
  let ?F4 = "case vote_BlockID m of None \<Rightarrow> []
             | Some b \<Rightarrow> bytes_field 0x22 (BlockID_layout b)"
  let ?F5 = "bytes_field 0x2A tb"
  let ?F6 = "omit_if (vote_ChainID m = []) (bytes_field 0x32 (vote_ChainID m))"
  let ?F7 = "case ext of None \<Rightarrow> [] | Some xb \<Rightarrow> bytes_field 0x3A xb"
  let ?D = "?F1 @ ?F2 @ ?F3 @ ?F4 @ ?F5 @ ?F6 @ ?F7"
  let ?m0 = "CanonicalVote_zero t0 :: ('a, 'b) CanonicalVote"
  let ?m1 = "?m0\<lparr>vote_Type := vote_Type m\<rparr>"
  let ?m2 = "?m1\<lparr>vote_Height := vote_Height m\<rparr>"
  let ?m3 = "?m2\<lparr>vote_Round := vote_Round m\<rparr>"
  let ?m4 = "?m3\<lparr>vote_BlockID := vote_BlockID m\<rparr>"
  let ?m5 = "?m4\<lparr>vote_Timestamp := vote_Timestamp m\<rparr>"
  let ?m6 = "?m5\<lparr>vote_ChainID := vote_ChainID m\<rparr>"
  let ?m7 = "?m6\<lparr>vote_VoteExtension := vote_VoteExtension m\<rparr>"
  let ?loop = "CanonicalVote_Unmarshal_loop E ?D"
  have D: "Vote_layout tb ext m = ?D"
    by (simp add: Vote_layout_def)
  note len = assms(1) [unfolded D]
  note z = CanonicalVote_zero_def
  have s1: "?loop 0 ?m0 = ?loop (int (length ?F1)) ?m1"
    using Vote_loop_Type [where pre = "[]" and T = "vote_Type m"
        and rest = "?F2 @ ?F3 @ ?F4 @ ?F5 @ ?F6 @ ?F7" and m = ?m0 and E = E] len
    by (simp add: z)
  have s2: "?loop (int (length ?F1)) ?m1 = ?loop (int (length (?F1 @ ?F2))) ?m2"
    using Vote_loop_Height [where pre = "?F1" and H = "vote_Height m"
        and rest = "?F3 @ ?F4 @ ?F5 @ ?F6 @ ?F7" and m = ?m1 and E = E] len
    by (simp add: z)
  have s3: "?loop (int (length (?F1 @ ?F2))) ?m2 = ?loop (int (length (?F1 @ ?F2 @ ?F3))) ?m3"
    using Vote_loop_Round [where pre = "?F1 @ ?F2" and R = "vote_Round m"
        and rest = "?F4 @ ?F5 @ ?F6 @ ?F7" and m = ?m2 and E = E] len
    by (simp add: z)
  have s4: "?loop (int (length (?F1 @ ?F2 @ ?F3))) ?m3 =
      ?loop (int (length (?F1 @ ?F2 @ ?F3 @ ?F4))) ?m4"
    using Vote_loop_BlockID [where pre = "?F1 @ ?F2 @ ?F3" and B = "vote_BlockID m"
        and rest = "?F5 @ ?F6 @ ?F7" and m = ?m3 and E = E] len
    by (simp add: z)
  have s5: "?loop (int (length (?F1 @ ?F2 @ ?F3 @ ?F4))) ?m4 =
      ?loop (int (length (?F1 @ ?F2 @ ?F3 @ ?F4 @ ?F5))) ?m5"
    using Vote_loop_Timestamp [where pre = "?F1 @ ?F2 @ ?F3 @ ?F4" and tb = tb
        and rest = "?F6 @ ?F7" and m = ?m4 and E = E and t = "vote_Timestamp m"] len assms(2)
    by (simp add: z)
  have s6: "?loop (int (length (?F1 @ ?F2 @ ?F3 @ ?F4 @ ?F5))) ?m5 =
      ?loop (int (length (?F1 @ ?F2 @ ?F3 @ ?F4 @ ?F5 @ ?F6))) ?m6"
    using Vote_loop_ChainID [where pre = "?F1 @ ?F2 @ ?F3 @ ?F4 @ ?F5"
        and C = "vote_ChainID m" and rest = "?F7" and m = ?m5 and E = E] len
    by (simp add: z)
  have s7: "?loop (int (length (?F1 @ ?F2 @ ?F3 @ ?F4 @ ?F5 @ ?F6))) ?m6 =
      ?loop (int (length ?D)) ?m7"
    using Vote_loop_VoteExtension [where pre = "?F1 @ ?F2 @ ?F3 @ ?F4 @ ?F5 @ ?F6"
        and ext = ext and X = "vote_VoteExtension m" and rest = "[]" and m = ?m6 and E = E]
      len assms(3)
    by (simp add: z)
  have fin: "?m7 = m" by (simp add: z)
  have "?loop 0 ?m0 = Inr m"
    unfolding s1 s2 s3 s4 s5 s6 s7 fin by (rule Vote_loop_end)
  then show ?thesis
    unfolding CanonicalVote_Unmarshal_def D .
qed


subsection \<open>Concrete runs\<close>


lemmas encode_eval = encode_varint.simps drop_bit_eq_div word_le_def
  encode_fixed64_def upt_8 layout_defs

lemmas example_defs = example_Timestamp_def example_BlockID_def test_chain_def
  example_Vote_def example_Proposal_def

lemma std_externals_simps:
  "SizeOfStdTime std_externals = (\<lambda>t. length (Timestamp_layout t))"
  "StdTimeMarshalTo std_externals = Timestamp_MarshalTo"
  "StdTimeUnmarshal std_externals = Timestamp_Unmarshal"
  "VoteExtension_Size std_externals = length"
  "VoteExtension_MarshalToSizedBuffer std_externals = Inr"
  "VoteExtension_Unmarshal std_externals = (\<lambda>m dAtA. Inr dAtA)"
  "VoteExtension_zero std_externals = []"
  by (simp_all add: std_externals_def)

lemma example_Timestamp_bytes:
  "Timestamp_MarshalTo example_Timestamp = Inr [0x08, 0x80, 0x81, 0xC8, 0xAC, 0x06]"
  "Timestamp_layout example_Timestamp = [0x08, 0x80, 0x81, 0xC8, 0xAC, 0x06]"
  "Timestamp_Unmarshal [0x08, 0x80, 0x81, 0xC8, 0xAC, 0x06] = Inr example_Timestamp"
  by (simp_all add: Timestamp_MarshalTo_def Timestamp_normalized_def Timestamp_layout_def
      example_Timestamp_def encode_eval Timestamp_Unmarshal_def Timestamp_Unmarshal_loop.simps
      decode_eval)

lemma example_layouts:
  "BlockID_layout example_BlockID =
     [0x0A, 3, 1, 2, 3, 0x12, 6, 0x08, 1, 0x12, 2, 4, 5]"
  "Vote_layout [0x08, 0x80, 0x81, 0xC8, 0xAC, 0x06] None example_Vote =
     [0x08, 2, 0x11, 0x39, 0x30, 0, 0, 0, 0, 0, 0, 0x19, 2, 0, 0, 0, 0, 0, 0, 0,
      0x22, 13, 0x0A, 3, 1, 2, 3, 0x12, 6, 0x08, 1, 0x12, 2, 4, 5,
      0x2A, 6, 0x08, 0x80, 0x81, 0xC8, 0xAC, 0x06,
      0x32, 10, 0x74, 0x65, 0x73, 0x74, 0x2D, 0x63, 0x68, 0x61, 0x69, 0x6E]"
  "Proposal_layout [0x08, 0x80, 0x81, 0xC8, 0xAC, 0x06] example_Proposal =
     [0x08, 0x20, 0x11, 0x39, 0x30, 0, 0, 0, 0, 0, 0, 0x19, 2, 0, 0, 0, 0, 0, 0, 0,
      0x20, 0xFF, 0xFF, 0xFF, 0xFF, 0xFF, 0xFF, 0xFF, 0xFF, 0xFF, 0x01,
      0x2A, 13, 0x0A, 3, 1, 2, 3, 0x12, 6, 0x08, 1, 0x12, 2, 4, 5,
      0x32, 6, 0x08, 0x80, 0x81, 0xC8, 0xAC, 0x06,
      0x3A, 10, 0x74, 0x65, 0x73, 0x74, 0x2D, 0x63, 0x68, 0x61, 0x69, 0x6E]"
  by (simp_all add: example_defs Vote_layout_def Proposal_layout_def BlockID_layout_def
      PartSetHeader_layout_def encode_eval)


lemma Marshal_example_Vote:
  "CanonicalVote_Marshal std_externals example_Vote =
     Inr (Vote_layout [0x08, 0x80, 0x81, 0xC8, 0xAC, 0x06] None example_Vote)"
  by (rule Marshal_Vote)
    (simp_all add: std_externals_simps example_Timestamp_bytes example_Vote_def ext_bytes_def)

lemma Marshal_example_Proposal:
  "CanonicalProposal_Marshal std_externals example_Proposal =
     Inr (Proposal_layout [0x08, 0x80, 0x81, 0xC8, 0xAC, 0x06] example_Proposal)"
  by (rule Marshal_Proposal)
    (simp_all add: std_externals_simps example_Timestamp_bytes example_Proposal_def)

lemma zero_Timestamp_bytes:
  "Timestamp_MarshalTo \<lparr>seconds = 0, nanos = 0\<rparr> = Inr []"
  "Timestamp_layout \<lparr>seconds = 0, nanos = 0\<rparr> = []"
  by (simp_all add: Timestamp_MarshalTo_def Timestamp_normalized_def Timestamp_layout_def
      omit_if_def)



lemma encode_fixed64_bytes:
  "encode_fixed64 x =
     [ucast x, ucast (drop_bit 8 x), ucast (drop_bit 16 x), ucast (drop_bit 24 x),
      ucast (drop_bit 32 x), ucast (drop_bit 40 x), ucast (drop_bit 48 x),
      ucast (drop_bit 56 x)]"
  by (simp add: encode_fixed64_def upt_8)

lemma minus_one_64: "(- 1 :: 64 word) = 0xFFFFFFFFFFFFFFFF"
  by simp

lemma encode_varint_minus_one:
  "encode_varint (- 1) = [0xFF, 0xFF, 0xFF, 0xFF, 0xFF, 0xFF, 0xFF, 0xFF, 0xFF, 0x01]"
  unfolding minus_one_64 by (simp add: encode_eval)

lemma zigzag_minus_one: "zigzag (- 1) = 1"
  unfolding zigzag_def by (rule bit_word_eqI) (auto simp: bit_simps bit_signed_drop_bit_iff)

section \<open>Round trip\<close>

text \<open>
  Claim C1. For every block id, proposal and vote, unmarshalling the bytes that \<open>Marshal\<close>
  returns into a fresh message gives the message back. This holds for all field values,
  so in particular for the valid ones (height above 0, round at least 0, pol_round at
  least -1, and so on). The buffer is no longer than a Go slice can be, and the
  functions taken from outside must invert each other: \<open>StdTimeUnmarshal\<close> reads back what
  \<open>StdTimeMarshalTo\<close> wrote, and likewise for the vote extension.
\<close>



theorem decode_encode_roundtrip:
  "(\<forall>bs. CanonicalBlockID_Marshal b = Inr bs \<and> int (length bs) \<le> MaxInt64 \<longrightarrow>
      CanonicalBlockID_Unmarshal CanonicalBlockID_zero bs = Inr b) \<and>
   ((\<forall>tb. StdTimeMarshalTo E (prop_Timestamp p) = Inr tb \<longrightarrow>
        length tb = SizeOfStdTime E (prop_Timestamp p) \<and>
        StdTimeUnmarshal E tb = Inr (prop_Timestamp p)) \<longrightarrow>
    (\<forall>bs. CanonicalProposal_Marshal E p = Inr bs \<and> int (length bs) \<le> MaxInt64 \<longrightarrow>
       CanonicalProposal_Unmarshal E (CanonicalProposal_zero t0) bs = Inr p)) \<and>
   ((\<forall>tb. StdTimeMarshalTo E (vote_Timestamp v) = Inr tb \<longrightarrow>
        length tb = SizeOfStdTime E (vote_Timestamp v) \<and>
        StdTimeUnmarshal E tb = Inr (vote_Timestamp v)) \<and>
    (\<forall>x xb. vote_VoteExtension v = Some x \<and> VoteExtension_MarshalToSizedBuffer E x = Inr xb \<longrightarrow>
        length xb = VoteExtension_Size E x \<and>
        VoteExtension_Unmarshal E (VoteExtension_zero E) xb = Inr x) \<longrightarrow>
    (\<forall>bs. CanonicalVote_Marshal E v = Inr bs \<and> int (length bs) \<le> MaxInt64 \<longrightarrow>
       CanonicalVote_Unmarshal E (CanonicalVote_zero t0) bs = Inr v))"
proof (intro conjI allI impI)
  fix bs assume "CanonicalBlockID_Marshal b = Inr bs \<and> int (length bs) \<le> MaxInt64"
  then show "CanonicalBlockID_Unmarshal CanonicalBlockID_zero bs = Inr b"
    using BlockID_roundtrip [of b] by (auto simp: Marshal_BlockID)
next
  fix bs
  assume t: "\<forall>tb. StdTimeMarshalTo E (prop_Timestamp p) = Inr tb \<longrightarrow>
        length tb = SizeOfStdTime E (prop_Timestamp p) \<and>
        StdTimeUnmarshal E tb = Inr (prop_Timestamp p)"
    and m: "CanonicalProposal_Marshal E p = Inr bs \<and> int (length bs) \<le> MaxInt64"
  show "CanonicalProposal_Unmarshal E (CanonicalProposal_zero t0) bs = Inr p"
  proof (cases "StdTimeMarshalTo E (prop_Timestamp p)")
    case (Inl e)
    from Marshal_Proposal_fails [OF this] m show ?thesis by simp
  next
    case (Inr tb)
    with t have l: "length tb = SizeOfStdTime E (prop_Timestamp p)"
      and u: "StdTimeUnmarshal E tb = Inr (prop_Timestamp p)" by simp_all
    from Marshal_Proposal [OF Inr l] m have bs: "bs = Proposal_layout tb p" by simp
    with m have "int (length (Proposal_layout tb p)) \<le> MaxInt64" by simp
    from Proposal_roundtrip [OF this u] show ?thesis unfolding bs .
  qed
next
  fix bs
  assume a: "(\<forall>tb. StdTimeMarshalTo E (vote_Timestamp v) = Inr tb \<longrightarrow>
        length tb = SizeOfStdTime E (vote_Timestamp v) \<and>
        StdTimeUnmarshal E tb = Inr (vote_Timestamp v)) \<and>
    (\<forall>x xb. vote_VoteExtension v = Some x \<and> VoteExtension_MarshalToSizedBuffer E x = Inr xb \<longrightarrow>
        length xb = VoteExtension_Size E x \<and>
        VoteExtension_Unmarshal E (VoteExtension_zero E) xb = Inr x)"
    and m: "CanonicalVote_Marshal E v = Inr bs \<and> int (length bs) \<le> MaxInt64"
  show "CanonicalVote_Unmarshal E (CanonicalVote_zero t0) bs = Inr v"
  proof (cases "StdTimeMarshalTo E (vote_Timestamp v)")
    case (Inl e)
    from Marshal_Vote_fails_time [OF this] m show ?thesis by simp
  next
    case (Inr tb)
    with a have l: "length tb = SizeOfStdTime E (vote_Timestamp v)"
      and u: "StdTimeUnmarshal E tb = Inr (vote_Timestamp v)" by simp_all
    show ?thesis
    proof (cases "vote_VoteExtension v")
      case None
      then have e: "ext_bytes E (vote_VoteExtension v) None" by (simp add: ext_bytes_def)
      from Marshal_Vote [OF Inr l e] m have bs: "bs = Vote_layout tb None v" by simp
      with m have "int (length (Vote_layout tb None v)) \<le> MaxInt64" by simp
      from Vote_roundtrip [OF this u] None show ?thesis unfolding bs by simp
    next
      case (Some x)
      show ?thesis
      proof (cases "VoteExtension_MarshalToSizedBuffer E x")
        case (Inl e)
        from Marshal_Vote_fails_ext [OF Some this] m show ?thesis by simp
      next
        case xb: (Inr xb)
        with a Some have lx: "length xb = VoteExtension_Size E x"
          and ux: "VoteExtension_Unmarshal E (VoteExtension_zero E) xb = Inr x" by simp_all
        from Some xb lx have e: "ext_bytes E (vote_VoteExtension v) (Some xb)"
          by (simp add: ext_bytes_def)
        from Marshal_Vote [OF Inr l e] m have bs: "bs = Vote_layout tb (Some xb) v" by simp
        with m have "int (length (Vote_layout tb (Some xb) v)) \<le> MaxInt64" by simp
        from Vote_roundtrip [OF this u] Some ux show ?thesis unfolding bs by simp
      qed
    qed
  qed
qed



theorem decode_encode_roundtrip_witness:
  "CanonicalBlockID_Unmarshal CanonicalBlockID_zero
     [0x0A, 3, 1, 2, 3, 0x12, 6, 0x08, 1, 0x12, 2, 4, 5] = Inr example_BlockID \<and>
   CanonicalProposal_Unmarshal std_externals
     (CanonicalProposal_zero \<lparr>seconds = 0, nanos = 0\<rparr>)
     [0x08, 0x20, 0x11, 0x39, 0x30, 0, 0, 0, 0, 0, 0, 0x19, 2, 0, 0, 0, 0, 0, 0, 0,
      0x20, 0xFF, 0xFF, 0xFF, 0xFF, 0xFF, 0xFF, 0xFF, 0xFF, 0xFF, 0x01,
      0x2A, 13, 0x0A, 3, 1, 2, 3, 0x12, 6, 0x08, 1, 0x12, 2, 4, 5,
      0x32, 6, 0x08, 0x80, 0x81, 0xC8, 0xAC, 0x06,
      0x3A, 10, 0x74, 0x65, 0x73, 0x74, 0x2D, 0x63, 0x68, 0x61, 0x69, 0x6E]
     = Inr example_Proposal \<and>
   CanonicalVote_Unmarshal std_externals
     (CanonicalVote_zero \<lparr>seconds = 0, nanos = 0\<rparr>)
     [0x08, 2, 0x11, 0x39, 0x30, 0, 0, 0, 0, 0, 0, 0x19, 2, 0, 0, 0, 0, 0, 0, 0,
      0x22, 13, 0x0A, 3, 1, 2, 3, 0x12, 6, 0x08, 1, 0x12, 2, 4, 5,
      0x2A, 6, 0x08, 0x80, 0x81, 0xC8, 0xAC, 0x06,
      0x32, 10, 0x74, 0x65, 0x73, 0x74, 0x2D, 0x63, 0x68, 0x61, 0x69, 0x6E]
     = Inr example_Vote"
proof -
  note inst = decode_encode_roundtrip [where b = example_BlockID and E = std_externals
      and p = example_Proposal and v = example_Vote and ?t0.0 = "\<lparr>seconds = 0, nanos = 0\<rparr>"]
  have t1: "\<forall>tb. StdTimeMarshalTo std_externals (prop_Timestamp example_Proposal) = Inr tb \<longrightarrow>
        length tb = SizeOfStdTime std_externals (prop_Timestamp example_Proposal) \<and>
        StdTimeUnmarshal std_externals tb = Inr (prop_Timestamp example_Proposal)"
    by (auto simp add: std_externals_simps example_Proposal_def example_Timestamp_bytes)
  have t2: "\<forall>tb. StdTimeMarshalTo std_externals (vote_Timestamp example_Vote) = Inr tb \<longrightarrow>
        length tb = SizeOfStdTime std_externals (vote_Timestamp example_Vote) \<and>
        StdTimeUnmarshal std_externals tb = Inr (vote_Timestamp example_Vote)"
    by (auto simp add: std_externals_simps example_Vote_def example_Timestamp_bytes)
  have t3: "\<forall>x xb. vote_VoteExtension example_Vote = Some x \<and>
        VoteExtension_MarshalToSizedBuffer std_externals x = Inr xb \<longrightarrow>
        length xb = VoteExtension_Size std_externals x \<and>
        VoteExtension_Unmarshal std_externals (VoteExtension_zero std_externals) xb = Inr x"
    by (simp add: example_Vote_def)
  have b: "CanonicalBlockID_Marshal example_BlockID = Inr (BlockID_layout example_BlockID)"
    by (rule Marshal_BlockID)
  have l: "int (length (BlockID_layout example_BlockID)) \<le> MaxInt64"
    "int (length (Proposal_layout [0x08, 0x80, 0x81, 0xC8, 0xAC, 0x06] example_Proposal))
      \<le> MaxInt64"
    "int (length (Vote_layout [0x08, 0x80, 0x81, 0xC8, 0xAC, 0x06] None example_Vote))
      \<le> MaxInt64"
    by (simp_all add: example_layouts MaxInt64_def)
  from inst b l(1)
  have 1: "CanonicalBlockID_Unmarshal CanonicalBlockID_zero (BlockID_layout example_BlockID)
      = Inr example_BlockID" by blast
  from inst t1 Marshal_example_Proposal l(2)
  have 2: "CanonicalProposal_Unmarshal std_externals
      (CanonicalProposal_zero \<lparr>seconds = 0, nanos = 0\<rparr>)
      (Proposal_layout [0x08, 0x80, 0x81, 0xC8, 0xAC, 0x06] example_Proposal)
      = Inr example_Proposal" by blast
  from inst t2 t3 Marshal_example_Vote l(3)
  have 3: "CanonicalVote_Unmarshal std_externals
      (CanonicalVote_zero \<lparr>seconds = 0, nanos = 0\<rparr>)
      (Vote_layout [0x08, 0x80, 0x81, 0xC8, 0xAC, 0x06] None example_Vote)
      = Inr example_Vote" by blast
  from 1 2 3 show ?thesis by (simp add: example_layouts)
qed

section \<open>The pol_round field\<close>

text \<open>
  Claim C2, as the code has it. The pol_round of a proposal is written under tag 4 (byte
  0x20) as the varint of its 64 bits taken as an unsigned number, with no zig-zag
  mapping, and is left out when it is zero. The value -1 is written as the ten bytes
  \<^verbatim>\<open>FF FF FF FF FF FF FF FF FF 01\<close>, which decode to -1 again, and a proposal with
  \<open>pol_round = -1\<close> that can be marshalled is unmarshalled to itself.
\<close>

theorem POLRound_plain_varint:
  assumes "StdTimeMarshalTo E (prop_Timestamp p) = Inr tb"
    and "length tb = SizeOfStdTime E (prop_Timestamp p)"
  shows
    "CanonicalProposal_Marshal E p =
        Inr (omit_if (prop_Type p = 0) (varint_field 0x08 (scast (prop_Type p))) @
             omit_if (prop_Height p = 0) (fixed64_field 0x11 (prop_Height p)) @
             omit_if (prop_Round p = 0) (fixed64_field 0x19 (prop_Round p)) @
             omit_if (prop_POLRound p = 0) (0x20 # encode_varint (prop_POLRound p)) @
             (case prop_BlockID p of None \<Rightarrow> []
              | Some b \<Rightarrow> bytes_field 0x2A (BlockID_layout b)) @
             bytes_field 0x32 tb @
             omit_if (prop_ChainID p = []) (bytes_field 0x3A (prop_ChainID p))) \<and>
     encode_varint (- 1) = [0xFF, 0xFF, 0xFF, 0xFF, 0xFF, 0xFF, 0xFF, 0xFF, 0xFF, 0x01] \<and>
     (decode_varint (encode_varint (- 1)) 0 :: error + (64 word \<times> int)) = Inr (- 1, 10) \<and>
     (prop_POLRound p = - 1 \<and> StdTimeUnmarshal E tb = Inr (prop_Timestamp p) \<and>
      (\<exists>bs. CanonicalProposal_Marshal E p = Inr bs \<and> int (length bs) \<le> MaxInt64) \<longrightarrow>
        (\<exists>bs. CanonicalProposal_Marshal E p = Inr bs \<and>
           CanonicalProposal_Unmarshal E (CanonicalProposal_zero t0) bs = Inr p))"
proof -
  note m = Marshal_Proposal [OF assms]
  have 1: "CanonicalProposal_Marshal E p =
        Inr (omit_if (prop_Type p = 0) (varint_field 0x08 (scast (prop_Type p))) @
             omit_if (prop_Height p = 0) (fixed64_field 0x11 (prop_Height p)) @
             omit_if (prop_Round p = 0) (fixed64_field 0x19 (prop_Round p)) @
             omit_if (prop_POLRound p = 0) (0x20 # encode_varint (prop_POLRound p)) @
             (case prop_BlockID p of None \<Rightarrow> []
              | Some b \<Rightarrow> bytes_field 0x2A (BlockID_layout b)) @
             bytes_field 0x32 tb @
             omit_if (prop_ChainID p = []) (bytes_field 0x3A (prop_ChainID p)))"
    using m by (simp add: Proposal_layout_def varint_field_def)
  have 3: "(decode_varint (encode_varint (- 1)) 0 :: error + (64 word \<times> int)) = Inr (- 1, 10)"
    using decode_varint_at [of "[]" "- 1" "[]", where ?'a = 64]
    by (simp add: encode_varint_minus_one MaxInt64_def)
  have 4: "CanonicalProposal_Unmarshal E (CanonicalProposal_zero t0) (Proposal_layout tb p) = Inr p"
    if "StdTimeUnmarshal E tb = Inr (prop_Timestamp p)"
      and "int (length (Proposal_layout tb p)) \<le> MaxInt64"
    using Proposal_roundtrip [OF that(2,1)] .
  from 1 3 4 m show ?thesis
    by (auto simp: encode_varint_minus_one)
qed

theorem POLRound_plain_varint_witness:
  "CanonicalProposal_Marshal std_externals example_Proposal =
     Inr ([0x08, 0x20, 0x11, 0x39, 0x30, 0, 0, 0, 0, 0, 0, 0x19, 2, 0, 0, 0, 0, 0, 0, 0] @
          [0x20, 0xFF, 0xFF, 0xFF, 0xFF, 0xFF, 0xFF, 0xFF, 0xFF, 0xFF, 0x01] @
          [0x2A, 13, 0x0A, 3, 1, 2, 3, 0x12, 6, 0x08, 1, 0x12, 2, 4, 5,
           0x32, 6, 0x08, 0x80, 0x81, 0xC8, 0xAC, 0x06,
           0x3A, 10, 0x74, 0x65, 0x73, 0x74, 0x2D, 0x63, 0x68, 0x61, 0x69, 0x6E]) \<and>
   prop_POLRound example_Proposal = - 1 \<and>
   (\<exists>bs. CanonicalProposal_Marshal std_externals example_Proposal = Inr bs \<and>
      CanonicalProposal_Unmarshal std_externals
        (CanonicalProposal_zero \<lparr>seconds = 0, nanos = 0\<rparr>) bs = Inr example_Proposal)"
proof -
  have t: "StdTimeMarshalTo std_externals (prop_Timestamp example_Proposal) =
        Inr [0x08, 0x80, 0x81, 0xC8, 0xAC, 0x06]"
      "length [0x08, 0x80, 0x81, 0xC8, 0xAC, 0x06 :: byte] =
        SizeOfStdTime std_externals (prop_Timestamp example_Proposal)"
      "StdTimeUnmarshal std_externals [0x08, 0x80, 0x81, 0xC8, 0xAC, 0x06] =
        Inr (prop_Timestamp example_Proposal)"
    by (simp_all add: std_externals_simps example_Proposal_def example_Timestamp_bytes)
  have pr: "prop_POLRound example_Proposal = - 1"
    by (simp add: example_Proposal_def)
  have l: "int (length (Proposal_layout [0x08, 0x80, 0x81, 0xC8, 0xAC, 0x06] example_Proposal))
      \<le> MaxInt64"
    by (simp add: example_layouts MaxInt64_def)
  note inst = POLRound_plain_varint [OF t(1,2), where ?t0.0 = "\<lparr>seconds = 0, nanos = 0\<rparr>"]
  from inst have 1: "CanonicalProposal_Marshal std_externals example_Proposal =
      Inr (Proposal_layout [0x08, 0x80, 0x81, 0xC8, 0xAC, 0x06] example_Proposal)"
    by (simp add: Proposal_layout_def varint_field_def)
  from inst pr t(3) l 1
  have 2: "\<exists>bs. CanonicalProposal_Marshal std_externals example_Proposal = Inr bs \<and>
      CanonicalProposal_Unmarshal std_externals
        (CanonicalProposal_zero \<lparr>seconds = 0, nanos = 0\<rparr>) bs = Inr example_Proposal"
    by blast
  from 1 2 pr show ?thesis by (simp add: example_layouts)
qed

text \<open>
  For \<open>pol_round = -1\<close> the field is eleven bytes long; under the zig-zag mapping it would
  be the two bytes \<^verbatim>\<open>20 01\<close>.
\<close>

theorem POLRound_zigzag_counterexample:
  "CanonicalProposal_Marshal std_externals
     ((CanonicalProposal_zero \<lparr>seconds = 0, nanos = 0\<rparr>)\<lparr>prop_POLRound := - 1\<rparr>) =
     Inr [0x20, 0xFF, 0xFF, 0xFF, 0xFF, 0xFF, 0xFF, 0xFF, 0xFF, 0xFF, 0x01, 0x32, 0] \<and>
   varint_field 0x20 (zigzag (- 1)) = [0x20, 0x01]"
proof -
  let ?p = "(CanonicalProposal_zero \<lparr>seconds = 0, nanos = 0\<rparr>)\<lparr>prop_POLRound := - 1\<rparr>"
  have "CanonicalProposal_Marshal std_externals ?p = Inr (Proposal_layout [] ?p)"
    by (rule Marshal_Proposal)
      (simp_all add: std_externals_simps CanonicalProposal_zero_def zero_Timestamp_bytes)
  moreover have "Proposal_layout [] ?p =
      [0x20, 0xFF, 0xFF, 0xFF, 0xFF, 0xFF, 0xFF, 0xFF, 0xFF, 0xFF, 0x01, 0x32, 0]"
    by (simp add: Proposal_layout_def CanonicalProposal_zero_def layout_defs
        encode_varint_minus_one encode_varint.simps [of 0])
  moreover have "varint_field 0x20 (zigzag (- 1)) = [0x20, 0x01]"
    by (simp add: zigzag_minus_one varint_field_def encode_varint.simps [of 1] word_le_def)
  ultimately show ?thesis by simp
qed

section \<open>Which fields are always written\<close>

text \<open>
  Claim C3. \<open>Marshal\<close> writes the fields of each message in ascending tag order. The
  timestamp of a proposal (tag 6, byte 0x32), the timestamp of a vote (tag 5, byte 0x2A)
  and the part set header of a block id (tag 2, byte 0x12) are written whatever their
  value: an empty one is the tag and a zero length. Every other scalar or bytes field
  (type, height, round, pol_round, chain_id, the total and hash of a part set header, the
  hash of a block id) is left out when it is zero or empty.
\<close>

theorem always_emitted_fields:
  "(CanonicalPartSetHeader_Marshal h = Inr (PartSetHeader_layout h) \<and>
    PartSetHeader_layout h =
      omit_if (psh_Total h = 0) (varint_field 0x08 (ucast (psh_Total h))) @
      omit_if (psh_Hash h = []) (bytes_field 0x12 (psh_Hash h))) \<and>
   (CanonicalBlockID_Marshal b = Inr (BlockID_layout b) \<and>
    BlockID_layout b =
      omit_if (bid_Hash b = []) (bytes_field 0x0A (bid_Hash b)) @
      bytes_field 0x12 (PartSetHeader_layout (bid_PartSetHeader b))) \<and>
   (StdTimeMarshalTo E (prop_Timestamp p) = Inr tb \<and>
    length tb = SizeOfStdTime E (prop_Timestamp p) \<longrightarrow>
      CanonicalProposal_Marshal E p =
        Inr (omit_if (prop_Type p = 0) (varint_field 0x08 (scast (prop_Type p))) @
             omit_if (prop_Height p = 0) (fixed64_field 0x11 (prop_Height p)) @
             omit_if (prop_Round p = 0) (fixed64_field 0x19 (prop_Round p)) @
             omit_if (prop_POLRound p = 0) (varint_field 0x20 (prop_POLRound p)) @
             (case prop_BlockID p of None \<Rightarrow> []
              | Some b \<Rightarrow> bytes_field 0x2A (BlockID_layout b)) @
             bytes_field 0x32 tb @
             omit_if (prop_ChainID p = []) (bytes_field 0x3A (prop_ChainID p)))) \<and>
   (StdTimeMarshalTo E (vote_Timestamp v) = Inr tb' \<and>
    length tb' = SizeOfStdTime E (vote_Timestamp v) \<and>
    ext_bytes E (vote_VoteExtension v) ext \<longrightarrow>
      CanonicalVote_Marshal E v =
        Inr (omit_if (vote_Type v = 0) (varint_field 0x08 (scast (vote_Type v))) @
             omit_if (vote_Height v = 0) (fixed64_field 0x11 (vote_Height v)) @
             omit_if (vote_Round v = 0) (fixed64_field 0x19 (vote_Round v)) @
             (case vote_BlockID v of None \<Rightarrow> []
              | Some b \<Rightarrow> bytes_field 0x22 (BlockID_layout b)) @
             bytes_field 0x2A tb' @
             omit_if (vote_ChainID v = []) (bytes_field 0x32 (vote_ChainID v)) @
             (case ext of None \<Rightarrow> [] | Some bs \<Rightarrow> bytes_field 0x3A bs))) \<and>
   omit_if True field = [] \<and> bytes_field tag [] = [tag, 0]"
proof -
  have e: "bytes_field tag [] = [tag, 0]"
    by (simp add: bytes_field_def encode_varint.simps)
  show ?thesis
    using Marshal_PartSetHeader [of h] Marshal_BlockID [of b]
      Marshal_Proposal [of E p tb] Marshal_Vote [of E v tb' ext] e
    by (simp add: PartSetHeader_layout_def BlockID_layout_def Proposal_layout_def
        Vote_layout_def omit_if_def)
qed

theorem always_emitted_fields_witness:
  "CanonicalBlockID_Marshal CanonicalBlockID_zero = Inr [0x12, 0] \<and>
   CanonicalPartSetHeader_Marshal CanonicalPartSetHeader_zero = Inr [] \<and>
   CanonicalProposal_Marshal std_externals
     (CanonicalProposal_zero \<lparr>seconds = 0, nanos = 0\<rparr>) = Inr [0x32, 0] \<and>
   CanonicalVote_Marshal std_externals
     (CanonicalVote_zero \<lparr>seconds = 0, nanos = 0\<rparr>) = Inr [0x2A, 0]"
proof -
  note inst = always_emitted_fields [where h = CanonicalPartSetHeader_zero
      and b = CanonicalBlockID_zero and E = std_externals
      and p = "CanonicalProposal_zero \<lparr>seconds = 0, nanos = 0\<rparr>"
      and v = "CanonicalVote_zero \<lparr>seconds = 0, nanos = 0\<rparr>"
      and tb = "[]" and tb' = "[]" and ext = None and tag = "0x12"]
  have e: "ext_bytes std_externals
      (vote_VoteExtension (CanonicalVote_zero \<lparr>seconds = 0, nanos = 0\<rparr>)) None"
    by (simp add: ext_bytes_def CanonicalVote_zero_def)
  from inst e show ?thesis
    by (simp add: CanonicalPartSetHeader_zero_def CanonicalBlockID_zero_def
        CanonicalProposal_zero_def CanonicalVote_zero_def std_externals_simps
        zero_Timestamp_bytes encode_eval)
qed

section \<open>A vote with and without its extension\<close>

text \<open>
  Claim C4. Take two votes equal in every field, one without a vote extension and one
  with. When both can be marshalled, the encodings differ in length and are never equal:
  the one with the extension is the other one followed by the extension's field (tag 7).
  As for C10, the functions from outside must write as many bytes as they announce.
\<close>

theorem vote_extension_presence:
  assumes "\<forall>tb. StdTimeMarshalTo E (vote_Timestamp v) = Inr tb \<longrightarrow>
             length tb = SizeOfStdTime E (vote_Timestamp v)"
    and "\<forall>xb. VoteExtension_MarshalToSizedBuffer E x = Inr xb \<longrightarrow>
             length xb = VoteExtension_Size E x"
    and "CanonicalVote_Marshal E (v\<lparr>vote_VoteExtension := None\<rparr>) = Inr a"
    and "CanonicalVote_Marshal E (v\<lparr>vote_VoteExtension := Some x\<rparr>) = Inr b"
  shows "length a < length b \<and> a \<noteq> b \<and>
         (\<exists>xb. VoteExtension_MarshalToSizedBuffer E x = Inr xb \<and> b = a @ bytes_field 0x3A xb)"
proof -
  let ?v0 = "v\<lparr>vote_VoteExtension := None\<rparr>"
  let ?v1 = "v\<lparr>vote_VoteExtension := Some x\<rparr>"
  obtain tb where tb: "StdTimeMarshalTo E (vote_Timestamp v) = Inr tb"
  proof (cases "StdTimeMarshalTo E (vote_Timestamp v)")
    case (Inl e)
    then have "StdTimeMarshalTo E (vote_Timestamp ?v0) = Inl e" by simp
    from Marshal_Vote_fails_time [OF this] assms(3) show ?thesis by simp
  next
    case (Inr tb)
    then show ?thesis by (rule that)
  qed
  with assms(1) have l: "length tb = SizeOfStdTime E (vote_Timestamp v)" by simp
  obtain xb where xb: "VoteExtension_MarshalToSizedBuffer E x = Inr xb"
  proof (cases "VoteExtension_MarshalToSizedBuffer E x")
    case (Inl e)
    have "vote_VoteExtension ?v1 = Some x" by simp
    from Marshal_Vote_fails_ext [OF this Inl] assms(4) show ?thesis by simp
  next
    case (Inr xb)
    then show ?thesis by (rule that)
  qed
  with assms(2) have lx: "length xb = VoteExtension_Size E x" by simp
  have "CanonicalVote_Marshal E ?v0 = Inr (Vote_layout tb None ?v0)"
    using tb l by (intro Marshal_Vote) (simp_all add: ext_bytes_def)
  with assms(3) have a: "a = Vote_layout tb None ?v0" by simp
  have "CanonicalVote_Marshal E ?v1 = Inr (Vote_layout tb (Some xb) ?v1)"
    using tb l xb lx by (intro Marshal_Vote) (simp_all add: ext_bytes_def)
  with assms(4) have b: "b = Vote_layout tb (Some xb) ?v1" by simp
  have "b = a @ bytes_field 0x3A xb"
    unfolding a b by (simp add: Vote_layout_def)
  moreover have "bytes_field 0x3A xb \<noteq> []" by (simp add: bytes_field_def)
  ultimately show ?thesis using xb by auto
qed

theorem vote_extension_presence_witness:
  "CanonicalVote_Marshal std_externals (example_Vote\<lparr>vote_VoteExtension := None\<rparr>) =
     Inr (Vote_layout [0x08, 0x80, 0x81, 0xC8, 0xAC, 0x06] None example_Vote) \<and>
   CanonicalVote_Marshal std_externals (example_Vote\<lparr>vote_VoteExtension := Some [0xAA, 0xBB]\<rparr>) =
     Inr (Vote_layout [0x08, 0x80, 0x81, 0xC8, 0xAC, 0x06] None example_Vote @
          [0x3A, 2, 0xAA, 0xBB]) \<and>
   length (Vote_layout [0x08, 0x80, 0x81, 0xC8, 0xAC, 0x06] None example_Vote) = 55"
proof -
  let ?v0 = "example_Vote\<lparr>vote_VoteExtension := None\<rparr>"
  let ?v1 = "example_Vote\<lparr>vote_VoteExtension := Some [0xAA, 0xBB]\<rparr>"
  let ?a = "Vote_layout [0x08, 0x80, 0x81, 0xC8, 0xAC, 0x06] None example_Vote"
  have same: "?v0 = example_Vote" by (simp add: example_Vote_def)
  have a: "CanonicalVote_Marshal std_externals ?v0 = Inr ?a"
    unfolding same by (rule Marshal_example_Vote)
  have b: "CanonicalVote_Marshal std_externals ?v1 =
      Inr (Vote_layout [0x08, 0x80, 0x81, 0xC8, 0xAC, 0x06] (Some [0xAA, 0xBB]) ?v1)"
    by (rule Marshal_Vote)
      (simp_all add: std_externals_simps example_Timestamp_bytes example_Vote_def ext_bytes_def)
  have t: "\<forall>tb. StdTimeMarshalTo std_externals (vote_Timestamp example_Vote) = Inr tb \<longrightarrow>
             length tb = SizeOfStdTime std_externals (vote_Timestamp example_Vote)"
    by (simp add: std_externals_simps example_Vote_def example_Timestamp_bytes)
  have x: "\<forall>xb. VoteExtension_MarshalToSizedBuffer std_externals [0xAA, 0xBB :: byte] = Inr xb \<longrightarrow>
             length xb = VoteExtension_Size std_externals [0xAA, 0xBB]"
    by (auto simp add: std_externals_simps)
  from vote_extension_presence [OF t x a b]
  have "Vote_layout [0x08, 0x80, 0x81, 0xC8, 0xAC, 0x06] (Some [0xAA, 0xBB]) ?v1 =
      ?a @ bytes_field 0x3A [0xAA, 0xBB]"
    by (simp add: std_externals_simps)
  with a b show ?thesis
    unfolding same by (simp add: example_layouts encode_eval)
qed

section \<open>A proposal with nothing but a chain id\<close>

text \<open>
  Claim C5. A proposal with type, height, round and pol_round zero, no block id and a
  chain id that is not empty encodes to exactly two fields: the timestamp field (tag 6)
  and then the chain id (tag 7).
\<close>

theorem zero_proposal_encoding:
  assumes "prop_Type p = 0" and "prop_Height p = 0" and "prop_Round p = 0"
    and "prop_POLRound p = 0" and "prop_BlockID p = None" and "prop_ChainID p \<noteq> []"
    and "StdTimeMarshalTo E (prop_Timestamp p) = Inr tb"
    and "length tb = SizeOfStdTime E (prop_Timestamp p)"
  shows "CanonicalProposal_Marshal E p =
           Inr (bytes_field 0x32 tb @ bytes_field 0x3A (prop_ChainID p))"
  using Marshal_Proposal [OF assms(7,8)] assms(1-6)
  by (simp add: Proposal_layout_def omit_if_def)

theorem zero_proposal_encoding_witness:
  "CanonicalProposal_Marshal std_externals empty_Proposal =
     Inr [0x32, 0, 0x3A, 10, 0x74, 0x65, 0x73, 0x74, 0x2D, 0x63, 0x68, 0x61, 0x69, 0x6E]"
  using zero_proposal_encoding [of empty_Proposal std_externals "[]"]
  by (simp add: empty_Proposal_def std_externals_simps zero_Timestamp_bytes test_chain_def
      encode_eval)

section \<open>Height and round have a fixed width\<close>

text \<open>
  Claim C6. In a proposal and in a vote, height (tag 2, byte 0x11) and round (tag 3, byte
  0x19) are each the tag and exactly 8 bytes, the value's bytes from the least
  significant to the most significant, whatever the value's sign or size; a height or
  round of zero is left out altogether. Reading the 8 bytes back gives the value.
\<close>

theorem height_round_fixed64:
  "(StdTimeMarshalTo E (prop_Timestamp p) = Inr tb \<and>
    length tb = SizeOfStdTime E (prop_Timestamp p) \<longrightarrow>
      CanonicalProposal_Marshal E p =
        Inr (omit_if (prop_Type p = 0) (varint_field 0x08 (scast (prop_Type p))) @
             omit_if (prop_Height p = 0) (0x11 # encode_fixed64 (prop_Height p)) @
             omit_if (prop_Round p = 0) (0x19 # encode_fixed64 (prop_Round p)) @
             omit_if (prop_POLRound p = 0) (varint_field 0x20 (prop_POLRound p)) @
             (case prop_BlockID p of None \<Rightarrow> []
              | Some b \<Rightarrow> bytes_field 0x2A (BlockID_layout b)) @
             bytes_field 0x32 tb @
             omit_if (prop_ChainID p = []) (bytes_field 0x3A (prop_ChainID p)))) \<and>
   (StdTimeMarshalTo E (vote_Timestamp v) = Inr tb' \<and>
    length tb' = SizeOfStdTime E (vote_Timestamp v) \<and>
    ext_bytes E (vote_VoteExtension v) ext \<longrightarrow>
      CanonicalVote_Marshal E v =
        Inr (omit_if (vote_Type v = 0) (varint_field 0x08 (scast (vote_Type v))) @
             omit_if (vote_Height v = 0) (0x11 # encode_fixed64 (vote_Height v)) @
             omit_if (vote_Round v = 0) (0x19 # encode_fixed64 (vote_Round v)) @
             (case vote_BlockID v of None \<Rightarrow> []
              | Some b \<Rightarrow> bytes_field 0x22 (BlockID_layout b)) @
             bytes_field 0x2A tb' @
             omit_if (vote_ChainID v = []) (bytes_field 0x32 (vote_ChainID v)) @
             (case ext of None \<Rightarrow> [] | Some bs \<Rightarrow> bytes_field 0x3A bs))) \<and>
   length (encode_fixed64 x) = 8 \<and>
   encode_fixed64 x =
     [ucast x, ucast (drop_bit 8 x), ucast (drop_bit 16 x), ucast (drop_bit 24 x),
      ucast (drop_bit 32 x), ucast (drop_bit 40 x), ucast (drop_bit 48 x),
      ucast (drop_bit 56 x)] \<and>
   Uint64 (encode_fixed64 x) = Inr x"
  using Marshal_Proposal [of E p tb] Marshal_Vote [of E v tb' ext]
    Uint64_encode_fixed64 [of x "[]"] encode_fixed64_bytes [of x]
  by (simp add: Proposal_layout_def Vote_layout_def fixed64_field_def)

theorem height_round_fixed64_witness:
  "CanonicalProposal_Marshal std_externals example_Proposal =
     Inr ([0x08, 0x20] @
          [0x11, 0x39, 0x30, 0, 0, 0, 0, 0, 0] @
          [0x19, 2, 0, 0, 0, 0, 0, 0, 0] @
          [0x20, 0xFF, 0xFF, 0xFF, 0xFF, 0xFF, 0xFF, 0xFF, 0xFF, 0xFF, 0x01,
           0x2A, 13, 0x0A, 3, 1, 2, 3, 0x12, 6, 0x08, 1, 0x12, 2, 4, 5,
           0x32, 6, 0x08, 0x80, 0x81, 0xC8, 0xAC, 0x06,
           0x3A, 10, 0x74, 0x65, 0x73, 0x74, 0x2D, 0x63, 0x68, 0x61, 0x69, 0x6E]) \<and>
   CanonicalVote_Marshal std_externals example_Vote =
     Inr ([0x08, 2] @
          [0x11, 0x39, 0x30, 0, 0, 0, 0, 0, 0] @
          [0x19, 2, 0, 0, 0, 0, 0, 0, 0] @
          [0x22, 13, 0x0A, 3, 1, 2, 3, 0x12, 6, 0x08, 1, 0x12, 2, 4, 5,
           0x2A, 6, 0x08, 0x80, 0x81, 0xC8, 0xAC, 0x06,
           0x32, 10, 0x74, 0x65, 0x73, 0x74, 0x2D, 0x63, 0x68, 0x61, 0x69, 0x6E]) \<and>
   encode_fixed64 0xFFFFFFFFFFFFFFFF = [0xFF, 0xFF, 0xFF, 0xFF, 0xFF, 0xFF, 0xFF, 0xFF]"
proof -
  note inst = height_round_fixed64 [where E = std_externals and p = example_Proposal
      and v = example_Vote and tb = "[0x08, 0x80, 0x81, 0xC8, 0xAC, 0x06]"
      and tb' = "[0x08, 0x80, 0x81, 0xC8, 0xAC, 0x06]" and ext = None
      and x = "0xFFFFFFFFFFFFFFFF"]
  have t: "StdTimeMarshalTo std_externals (prop_Timestamp example_Proposal) =
        Inr [0x08, 0x80, 0x81, 0xC8, 0xAC, 0x06]"
      "length [0x08, 0x80, 0x81, 0xC8, 0xAC, 0x06 :: byte] =
        SizeOfStdTime std_externals (prop_Timestamp example_Proposal)"
      "StdTimeMarshalTo std_externals (vote_Timestamp example_Vote) =
        Inr [0x08, 0x80, 0x81, 0xC8, 0xAC, 0x06]"
      "length [0x08, 0x80, 0x81, 0xC8, 0xAC, 0x06 :: byte] =
        SizeOfStdTime std_externals (vote_Timestamp example_Vote)"
      "ext_bytes std_externals (vote_VoteExtension example_Vote) None"
    by (simp_all add: std_externals_simps example_Proposal_def example_Vote_def
        example_Timestamp_bytes ext_bytes_def)
  have p: "CanonicalProposal_Marshal std_externals example_Proposal =
      Inr (Proposal_layout [0x08, 0x80, 0x81, 0xC8, 0xAC, 0x06] example_Proposal)"
    using inst t by (simp add: Proposal_layout_def fixed64_field_def)
  have v: "CanonicalVote_Marshal std_externals example_Vote =
      Inr (Vote_layout [0x08, 0x80, 0x81, 0xC8, 0xAC, 0x06] None example_Vote)"
    using inst t by (simp add: Vote_layout_def fixed64_field_def)
  have f: "encode_fixed64 0xFFFFFFFFFFFFFFFF = [0xFF, 0xFF, 0xFF, 0xFF, 0xFF, 0xFF, 0xFF, 0xFF]"
    using inst by (simp add: drop_bit_eq_div)
  from p v f show ?thesis by (simp add: example_layouts)
qed

section \<open>An unknown field that announces more bytes than the buffer holds\<close>

text \<open>
  Claim C7, as the code has it. Let a decoder stand at \<open>iNdEx\<close>, where a tag of wire type 2
  with a field number the message does not know is followed by a length \<open>len\<close> that is
  not negative as an \<^verbatim>\<open>int\<close>, that reaches beyond the end of the buffer, and whose end
  \<open>i2 + len\<close> still fits an \<^verbatim>\<open>int\<close>. Then each of the four decoders returns
  \<open>ErrUnexpectedEOF\<close>. Every read of the buffer in the model is checked, and an
  out-of-range read is the value \<open>PanicOutOfRange\<close>: the result \<open>ErrUnexpectedEOF\<close> says that
  no byte beyond the end was read.
\<close>

theorem unknown_field_truncated:
  assumes "int (length dAtA) \<le> MaxInt64"
    and "decode_varint dAtA iNdEx = Inr (wire, i1)" and "wireType_of wire = 2"
    and "decode_varint dAtA i1 = Inr (len :: 64 word, i2)" and "0 \<le> sint len"
    and "int (length dAtA) < i2 + sint len" and "i2 + sint len \<le> MaxInt64"
  shows
    "(2 < fieldNum_of wire \<longrightarrow>
        CanonicalBlockID_Unmarshal_loop dAtA iNdEx b = Inl ErrUnexpectedEOF \<and>
        CanonicalPartSetHeader_Unmarshal_loop dAtA iNdEx h = Inl ErrUnexpectedEOF) \<and>
     (7 < fieldNum_of wire \<longrightarrow>
        CanonicalProposal_Unmarshal_loop E dAtA iNdEx p = Inl ErrUnexpectedEOF \<and>
        CanonicalVote_Unmarshal_loop E dAtA iNdEx v = Inl ErrUnexpectedEOF)"
proof -
  note sk = skip_unknown_truncated [OF assms]
  note pr = decode_varint_progress [OF assms(2)]
  have lt: "iNdEx < int (length dAtA)" using pr by simp
  have 1: "CanonicalBlockID_Unmarshal_loop dAtA iNdEx b = Inl ErrUnexpectedEOF"
    if "2 < fieldNum_of wire"
    using that lt assms(2,3) sk
    by (subst CanonicalBlockID_Unmarshal_loop.simps)
      (simp add: CanonicalBlockID_Unmarshal_field_def bind_def)
  have 2: "CanonicalPartSetHeader_Unmarshal_loop dAtA iNdEx h = Inl ErrUnexpectedEOF"
    if "2 < fieldNum_of wire"
    using that lt assms(2,3) sk
    by (subst CanonicalPartSetHeader_Unmarshal_loop.simps)
      (simp add: CanonicalPartSetHeader_Unmarshal_field_def bind_def)
  have 3: "CanonicalProposal_Unmarshal_loop E dAtA iNdEx p = Inl ErrUnexpectedEOF"
    if "7 < fieldNum_of wire"
    using that lt assms(2,3) sk
    by (subst CanonicalProposal_Unmarshal_loop.simps)
      (simp add: CanonicalProposal_Unmarshal_field_def bind_def)
  have 4: "CanonicalVote_Unmarshal_loop E dAtA iNdEx v = Inl ErrUnexpectedEOF"
    if "7 < fieldNum_of wire"
    using that lt assms(2,3) sk
    by (subst CanonicalVote_Unmarshal_loop.simps)
      (simp add: CanonicalVote_Unmarshal_field_def bind_def)
  from 1 2 3 4 show ?thesis by blast
qed


theorem unknown_field_truncated_witness:
  "CanonicalBlockID_Unmarshal CanonicalBlockID_zero [0x9A, 0x06, 0x05, 0x01, 0x02]
     = Inl ErrUnexpectedEOF \<and>
   CanonicalPartSetHeader_Unmarshal CanonicalPartSetHeader_zero [0x9A, 0x06, 0x05, 0x01, 0x02]
     = Inl ErrUnexpectedEOF \<and>
   CanonicalProposal_Unmarshal std_externals (CanonicalProposal_zero example_Timestamp)
     [0x9A, 0x06, 0x05, 0x01, 0x02] = Inl ErrUnexpectedEOF \<and>
   CanonicalVote_Unmarshal std_externals (CanonicalVote_zero example_Timestamp)
     [0x9A, 0x06, 0x05, 0x01, 0x02] = Inl ErrUnexpectedEOF"
proof -
  let ?d = "[0x9A, 0x06, 0x05, 0x01, 0x02] :: byte list"
  have tag: "decode_varint ?d 0 = Inr (0x31A :: 64 word, 2)"
    by (simp add: decode_eval)
  have len: "decode_varint ?d 2 = Inr (5 :: 64 word, 3)"
    by (simp add: decode_eval)
  have num: "fieldNum_of 0x31A = 99" "wireType_of 0x31A = 2"
    by (simp_all add: fieldNum_of_def wireType_of_def drop_bit_eq_div)
  from unknown_field_truncated [where dAtA = ?d and iNdEx = 0 and wire = "0x31A" and ?i1.0 = 2
      and len = 5 and ?i2.0 = 3 and b = CanonicalBlockID_zero and h = CanonicalPartSetHeader_zero
      and E = std_externals and p = "CanonicalProposal_zero example_Timestamp"
      and v = "CanonicalVote_zero example_Timestamp", OF _ tag num(2) len]
  show ?thesis
    by (simp add: num MaxInt64_def CanonicalBlockID_Unmarshal_def
        CanonicalPartSetHeader_Unmarshal_def CanonicalProposal_Unmarshal_def
        CanonicalVote_Unmarshal_def)
qed

text \<open>
  A declared length of \<open>2^63 - 1\<close> exceeds the one byte that is left, and the error is
  \<open>ErrInvalidLengthCanonical\<close>: index plus length overflows, and the skipper tests for that.
\<close>

theorem unknown_field_huge_length_counterexample:
  "CanonicalBlockID_Unmarshal CanonicalBlockID_zero
     [0x9A, 0x06, 0xFF, 0xFF, 0xFF, 0xFF, 0xFF, 0xFF, 0xFF, 0xFF, 0x7F, 0x00]
   = Inl ErrInvalidLengthCanonical"
  by (simp add: CanonicalBlockID_Unmarshal_def CanonicalBlockID_Unmarshal_loop.simps
      CanonicalBlockID_Unmarshal_field_def unmarshal_eval)

section \<open>Errors of the varint loop\<close>


lemma decode_varint_loop_overflow:
  "0 \<le> iNdEx \<Longrightarrow> int (length dAtA) \<le> MaxInt64 \<Longrightarrow> 64 \<le> shift + 7 * n \<Longrightarrow>
   (\<forall>k<n. iNdEx + int k < int (length dAtA) \<and> 0x80 \<le> dAtA ! nat (iNdEx + int k)) \<Longrightarrow>
   decode_varint_loop dAtA iNdEx shift x = Inl ErrIntOverflowCanonical"
proof (induction n arbitrary: iNdEx shift x)
  case 0
  then show ?case by (simp add: decode_varint_loop.simps)
next
  case (Suc n)
  show ?case
  proof (cases "64 \<le> shift")
    case True
    then show ?thesis by (simp add: decode_varint_loop.simps)
  next
    case False
    from Suc.prems(4) have here: "iNdEx < int (length dAtA)" "0x80 \<le> dAtA ! nat iNdEx"
      by (auto dest: spec [of _ 0])
    have rest: "\<forall>k<n. (iNdEx + 1) + int k < int (length dAtA)
        \<and> 0x80 \<le> dAtA ! nat ((iNdEx + 1) + int k)"
    proof (intro allI impI)
      fix k assume "k < n"
      then have "Suc k < Suc n" by simp
      with Suc.prems(4) have "iNdEx + int (Suc k) < int (length dAtA)
          \<and> 0x80 \<le> dAtA ! nat (iNdEx + int (Suc k))" by blast
      then show "(iNdEx + 1) + int k < int (length dAtA)
          \<and> 0x80 \<le> dAtA ! nat ((iNdEx + 1) + int k)"
        by (simp add: algebra_simps)
    qed
    have "decode_varint_loop dAtA (iNdEx + 1) (shift + 7)
            (x OR push_bit shift (ucast (dAtA ! nat iNdEx AND 0x7F)))
          = Inl ErrIntOverflowCanonical"
      using Suc.prems(1,2,3) rest by (intro Suc.IH) auto
    with False here Suc.prems(1,2) show ?thesis
      by (subst decode_varint_loop.simps) (simp add: index_def Let_def not_less [symmetric])
  qed
qed

lemma decode_varint_loop_truncated:
  "0 \<le> iNdEx \<Longrightarrow> int (length dAtA) \<le> MaxInt64 \<Longrightarrow> shift + 7 * n < 64 \<Longrightarrow>
   iNdEx + int n = int (length dAtA) \<Longrightarrow>
   (\<forall>k<n. 0x80 \<le> dAtA ! nat (iNdEx + int k)) \<Longrightarrow>
   decode_varint_loop dAtA iNdEx shift x = Inl ErrUnexpectedEOF"
proof (induction n arbitrary: iNdEx shift x)
  case 0
  then show ?case by (simp add: decode_varint_loop.simps)
next
  case (Suc n)
  from Suc.prems(5) have here: "0x80 \<le> dAtA ! nat iNdEx"
    by (auto dest: spec [of _ 0])
  have rest: "\<forall>k<n. 0x80 \<le> dAtA ! nat ((iNdEx + 1) + int k)"
  proof (intro allI impI)
    fix k assume "k < n"
    then have "Suc k < Suc n" by simp
    with Suc.prems(5) have "0x80 \<le> dAtA ! nat (iNdEx + int (Suc k))" by blast
    then show "0x80 \<le> dAtA ! nat ((iNdEx + 1) + int k)"
      by (simp add: algebra_simps)
  qed
  have "decode_varint_loop dAtA (iNdEx + 1) (shift + 7)
          (x OR push_bit shift (ucast (dAtA ! nat iNdEx AND 0x7F)))
        = Inl ErrUnexpectedEOF"
    using Suc.prems(1,2,3,4) rest by (intro Suc.IH) auto
  with here Suc.prems(1,2,3,4) show ?case
    by (subst decode_varint_loop.simps) (simp add: index_def Let_def not_less [symmetric])
qed

text \<open>
  Claim C8, as the code has it. Reading a varint at \<open>iNdEx\<close> fails with
  \<open>ErrIntOverflowCanonical\<close> when the ten bytes from \<open>iNdEx\<close> on all carry the
  continuation bit (the test \<^verbatim>\<open>shift >= 64\<close> comes first, so this holds whether or not
  an eleventh byte exists), and fails with \<open>ErrUnexpectedEOF\<close> when the buffer ends
  after fewer than ten bytes, all of them carrying the continuation bit. This holds
  at every width of the accumulator.
\<close>

theorem decode_varint_errors:
  "0 \<le> iNdEx \<and> int (length dAtA) \<le> MaxInt64 \<longrightarrow>
   ((\<forall>k<10. iNdEx + int k < int (length dAtA) \<and> 0x80 \<le> dAtA ! nat (iNdEx + int k)) \<longrightarrow>
      (decode_varint dAtA iNdEx :: error + ('a::len word \<times> int)) = Inl ErrIntOverflowCanonical) \<and>
   (\<forall>n<10. iNdEx + int n = int (length dAtA) \<and> (\<forall>k<n. 0x80 \<le> dAtA ! nat (iNdEx + int k)) \<longrightarrow>
      (decode_varint dAtA iNdEx :: error + ('a word \<times> int)) = Inl ErrUnexpectedEOF)"
  unfolding decode_varint_def
  by (auto intro!: decode_varint_loop_overflow [where n = 10] decode_varint_loop_truncated)

theorem decode_varint_errors_witness:
  "(decode_varint [0xFF, 0xFF, 0xFF, 0xFF, 0xFF, 0xFF, 0xFF, 0xFF, 0xFF, 0xFF, 0x01] 0
      :: error + (64 word \<times> int)) = Inl ErrIntOverflowCanonical \<and>
   (decode_varint [0x96, 0x81] 0 :: error + (64 word \<times> int)) = Inl ErrUnexpectedEOF"
proof -
  let ?a = "[0xFF, 0xFF, 0xFF, 0xFF, 0xFF, 0xFF, 0xFF, 0xFF, 0xFF, 0xFF, 0x01] :: byte list"
  let ?b = "[0x96, 0x81] :: byte list"
  have a: "\<forall>k<10. 0 + int k < int (length ?a) \<and> 0x80 \<le> ?a ! nat (0 + int k)"
  proof (intro allI impI)
    fix k :: nat assume "k < 10"
    then have "k \<in> {0, 1, 2, 3, 4, 5, 6, 7, 8, 9}" by auto
    then show "0 + int k < int (length ?a) \<and> 0x80 \<le> ?a ! nat (0 + int k)" by auto
  qed
  have "\<forall>k<2. 0x80 \<le> ?b ! nat (0 + int k)"
  proof (intro allI impI)
    fix k :: nat assume "k < 2"
    then have "k \<in> {0, 1}" by auto
    then show "0x80 \<le> ?b ! nat (0 + int k)" by auto
  qed
  then have b: "0 + int 2 = int (length ?b) \<and> (\<forall>k<2. 0x80 \<le> ?b ! nat (0 + int k))"
    by simp
  from a decode_varint_errors [of 0 ?a, where 'a = 64]
  have 1: "(decode_varint ?a 0 :: error + (64 word \<times> int)) = Inl ErrIntOverflowCanonical"
    by (simp add: MaxInt64_def)
  from b decode_varint_errors [of 0 ?b, where 'a = 64]
  have 2: "(decode_varint ?b 0 :: error + (64 word \<times> int)) = Inl ErrUnexpectedEOF"
    by (auto simp add: MaxInt64_def)
  from 1 2 show ?thesis by simp
qed

text \<open>
  A buffer of ten continuation bytes is exhausted before any terminator, and the
  result is the overflow error, not \<open>ErrUnexpectedEOF\<close>.
\<close>

theorem decode_varint_exhausted_counterexample:
  "(decode_varint [0x80, 0x80, 0x80, 0x80, 0x80, 0x80, 0x80, 0x80, 0x80, 0x80] 0
      :: error + (64 word \<times> int)) \<noteq> Inl ErrUnexpectedEOF"
  by (simp add: decode_varint_def decode_varint_loop.simps index_def MaxInt64_def)

section \<open>The field skipper\<close>



section \<open>Marshal fills the buffer that Size announces\<close>

text \<open>
  Claim C10. Whenever \<open>Marshal\<close> succeeds, the slice it returns is exactly \<open>Size\<close> bytes long,
  for each of the four messages. For a proposal and a vote this needs the functions
  taken from outside to agree among themselves: the bytes that \<open>StdTimeMarshalTo\<close> writes
  are as many as \<open>SizeOfStdTime\<close> says, and likewise for the vote extension.
\<close>

theorem Marshal_length_is_Size:
  "(\<forall>bs. CanonicalPartSetHeader_Marshal h = Inr bs \<longrightarrow> length bs = CanonicalPartSetHeader_Size h) \<and>
   (\<forall>bs. CanonicalBlockID_Marshal b = Inr bs \<longrightarrow> length bs = CanonicalBlockID_Size b) \<and>
   ((\<forall>tb. StdTimeMarshalTo E (prop_Timestamp p) = Inr tb \<longrightarrow>
        length tb = SizeOfStdTime E (prop_Timestamp p)) \<longrightarrow>
    (\<forall>bs. CanonicalProposal_Marshal E p = Inr bs \<longrightarrow> length bs = CanonicalProposal_Size E p)) \<and>
   ((\<forall>tb. StdTimeMarshalTo E (vote_Timestamp v) = Inr tb \<longrightarrow>
        length tb = SizeOfStdTime E (vote_Timestamp v)) \<and>
    (\<forall>x xb. vote_VoteExtension v = Some x \<and> VoteExtension_MarshalToSizedBuffer E x = Inr xb \<longrightarrow>
        length xb = VoteExtension_Size E x) \<longrightarrow>
    (\<forall>bs. CanonicalVote_Marshal E v = Inr bs \<longrightarrow> length bs = CanonicalVote_Size E v))"
proof (intro conjI allI impI)
  fix bs assume "CanonicalPartSetHeader_Marshal h = Inr bs"
  then show "length bs = CanonicalPartSetHeader_Size h"
    by (simp add: Marshal_PartSetHeader length_PartSetHeader_layout [symmetric])
next
  fix bs assume "CanonicalBlockID_Marshal b = Inr bs"
  then show "length bs = CanonicalBlockID_Size b"
    by (simp add: Marshal_BlockID length_BlockID_layout [symmetric])
next
  fix bs
  assume t: "\<forall>tb. StdTimeMarshalTo E (prop_Timestamp p) = Inr tb \<longrightarrow>
        length tb = SizeOfStdTime E (prop_Timestamp p)"
    and m: "CanonicalProposal_Marshal E p = Inr bs"
  show "length bs = CanonicalProposal_Size E p"
  proof (cases "StdTimeMarshalTo E (prop_Timestamp p)")
    case (Inl e)
    from Marshal_Proposal_fails [OF this] m show ?thesis by simp
  next
    case (Inr tb)
    with t have l: "length tb = SizeOfStdTime E (prop_Timestamp p)" by simp
    from Marshal_Proposal [OF Inr l] m length_Proposal_layout [OF l] show ?thesis by simp
  qed
next
  fix bs
  assume a: "(\<forall>tb. StdTimeMarshalTo E (vote_Timestamp v) = Inr tb \<longrightarrow>
        length tb = SizeOfStdTime E (vote_Timestamp v)) \<and>
    (\<forall>x xb. vote_VoteExtension v = Some x \<and> VoteExtension_MarshalToSizedBuffer E x = Inr xb \<longrightarrow>
        length xb = VoteExtension_Size E x)"
    and m: "CanonicalVote_Marshal E v = Inr bs"
  show "length bs = CanonicalVote_Size E v"
  proof (cases "StdTimeMarshalTo E (vote_Timestamp v)")
    case (Inl e)
    from Marshal_Vote_fails_time [OF this] m show ?thesis by simp
  next
    case (Inr tb)
    with a have l: "length tb = SizeOfStdTime E (vote_Timestamp v)" by simp
    show ?thesis
    proof (cases "vote_VoteExtension v")
      case None
      then have e: "ext_bytes E (vote_VoteExtension v) None" by (simp add: ext_bytes_def)
      have "length (Vote_layout tb None v) = CanonicalVote_Size E v"
        using None by (intro length_Vote_layout [OF l]) simp
      with Marshal_Vote [OF Inr l e] m show ?thesis by simp
    next
      case (Some x)
      show ?thesis
      proof (cases "VoteExtension_MarshalToSizedBuffer E x")
        case (Inl e)
        from Marshal_Vote_fails_ext [OF Some this] m show ?thesis by simp
      next
        case xb: (Inr xb)
        with a Some have lx: "length xb = VoteExtension_Size E x" by simp
        with Some xb have e: "ext_bytes E (vote_VoteExtension v) (Some xb)"
          by (simp add: ext_bytes_def)
        have "length (Vote_layout tb (Some xb) v) = CanonicalVote_Size E v"
          using Some lx by (intro length_Vote_layout [OF l]) simp
        with Marshal_Vote [OF Inr l e] m show ?thesis by simp
      qed
    qed
  qed
qed

theorem Marshal_length_is_Size_witness:
  "(\<exists>bs. CanonicalBlockID_Marshal example_BlockID = Inr bs \<and>
      length bs = CanonicalBlockID_Size example_BlockID \<and> length bs = 13) \<and>
   (\<exists>bs. CanonicalPartSetHeader_Marshal (bid_PartSetHeader example_BlockID) = Inr bs \<and>
      length bs = CanonicalPartSetHeader_Size (bid_PartSetHeader example_BlockID) \<and>
      length bs = 6) \<and>
   (\<exists>bs. CanonicalProposal_Marshal std_externals example_Proposal = Inr bs \<and>
      length bs = CanonicalProposal_Size std_externals example_Proposal \<and> length bs = 66) \<and>
   (\<exists>bs. CanonicalVote_Marshal std_externals example_Vote = Inr bs \<and>
      length bs = CanonicalVote_Size std_externals example_Vote \<and> length bs = 55)"
proof -
  note inst = Marshal_length_is_Size [of "bid_PartSetHeader example_BlockID" example_BlockID
      std_externals example_Proposal example_Vote]
  have t1: "\<forall>tb. StdTimeMarshalTo std_externals (prop_Timestamp example_Proposal) = Inr tb \<longrightarrow>
        length tb = SizeOfStdTime std_externals (prop_Timestamp example_Proposal)"
    by (simp add: std_externals_simps example_Proposal_def example_Timestamp_bytes)
  have t2: "\<forall>tb. StdTimeMarshalTo std_externals (vote_Timestamp example_Vote) = Inr tb \<longrightarrow>
        length tb = SizeOfStdTime std_externals (vote_Timestamp example_Vote)"
    by (simp add: std_externals_simps example_Vote_def example_Timestamp_bytes)
  have t3: "\<forall>x xb. vote_VoteExtension example_Vote = Some x \<and>
        VoteExtension_MarshalToSizedBuffer std_externals x = Inr xb \<longrightarrow>
        length xb = VoteExtension_Size std_externals x"
    by (simp add: example_Vote_def)
  have a: "CanonicalBlockID_Marshal example_BlockID = Inr (BlockID_layout example_BlockID)"
    by (rule Marshal_BlockID)
  have b: "CanonicalPartSetHeader_Marshal (bid_PartSetHeader example_BlockID) =
      Inr (PartSetHeader_layout (bid_PartSetHeader example_BlockID))"
    by (rule Marshal_PartSetHeader)
  have lb: "length (PartSetHeader_layout (bid_PartSetHeader example_BlockID)) = 6"
    by (simp add: example_defs PartSetHeader_layout_def encode_eval)
  from inst a have 1: "length (BlockID_layout example_BlockID) =
      CanonicalBlockID_Size example_BlockID" by blast
  from inst b have 2: "length (PartSetHeader_layout (bid_PartSetHeader example_BlockID)) =
      CanonicalPartSetHeader_Size (bid_PartSetHeader example_BlockID)" by blast
  from inst t1 Marshal_example_Proposal
  have 3: "length (Proposal_layout [0x08, 0x80, 0x81, 0xC8, 0xAC, 0x06] example_Proposal) =
      CanonicalProposal_Size std_externals example_Proposal" by blast
  from inst t2 t3 Marshal_example_Vote
  have 4: "length (Vote_layout [0x08, 0x80, 0x81, 0xC8, 0xAC, 0x06] None example_Vote) =
      CanonicalVote_Size std_externals example_Vote" by blast
  show ?thesis
    using a b 1 2 3 4 lb Marshal_example_Proposal Marshal_example_Vote
    by (simp add: example_layouts)
qed

end
